theory Spec2Isabelle
  imports Main "HOL-Library.Word" "HOL-Library.Signed_Division" "HOL-Library.Monad_Syntax"
begin

section \<open>Heavy-light decomposition over a sum segment tree\<close>

text \<open>
  A shallow embedding of \<^verbatim>\<open>heavy_light_decomposition.cc\<close>.

  \<^item> Node values and the sums of them are C++ \<^verbatim>\<open>int\<close>: 32-bit words, whose addition wraps.
  \<^item> Node indices, depths, sizes, positions and segment-tree indices are C++ \<^verbatim>\<open>int\<close> as well.
    They are bounded by four times the number of nodes, so they are modelled as
    mathematical integers (with \<open>-1\<close> as the "none" marker, as in the source).
  \<^item> A \<^verbatim>\<open>vector\<close> is a list. Reading or writing outside a vector is undefined behaviour in
    C++; the model returns \<open>None\<close> there (\<open>rd\<close>, \<open>wr\<close>), so that every result
    \<open>Some x\<close> below is the result of a run that stayed inside its vectors.
  \<^item> The member functions mutate the object; the model passes the object and returns the
    updated one.
\<close>

subsection \<open>Vectors\<close>

type_synonym cint = "32 word"

definition rd :: "'a list \<Rightarrow> int \<Rightarrow> 'a option" where
  "rd xs i = (if 0 \<le> i \<and> i < int (length xs) then Some (xs ! nat i) else None)"

definition wr :: "'a list \<Rightarrow> int \<Rightarrow> 'a \<Rightarrow> 'a list option" where
  "wr xs i v = (if 0 \<le> i \<and> i < int (length xs) then Some (xs[nat i := v]) else None)"

subsection \<open>class SegmentTree\<close>

record SegmentTree =
  st_n :: int
  st_tree :: "cint list"

definition SegmentTree_new :: "int \<Rightarrow> SegmentTree" where
  "SegmentTree_new sz = \<lparr> st_n = sz, st_tree = replicate (nat (4 * sz)) 0 \<rparr>"

definition combine :: "cint \<Rightarrow> cint \<Rightarrow> cint" where
  "combine a b = a + b"

text \<open>
  The three private recursive helpers. \<open>sdiv\<close> is C++ integer division (truncation towards
  zero). With \<open>start > end\<close> the recursion of the source does not end, so the helpers are
  partial functions: \<open>None\<close> is "no result" (no return, or an access outside a vector).
\<close>

partial_function (option) st_build ::
  "cint list \<Rightarrow> cint list \<Rightarrow> int \<Rightarrow> int \<Rightarrow> int \<Rightarrow> cint list option" where
  "st_build arr t node start end =
     (if start = end then do { a \<leftarrow> rd arr start; wr t node a }
      else do {
        let mid = (start + end) sdiv 2;
        t1 \<leftarrow> st_build arr t (2 * node + 1) start mid;
        t2 \<leftarrow> st_build arr t1 (2 * node + 2) (mid + 1) end;
        l \<leftarrow> rd t2 (2 * node + 1);
        r \<leftarrow> rd t2 (2 * node + 2);
        wr t2 node (combine l r)
      })"

partial_function (option) st_update ::
  "cint list \<Rightarrow> int \<Rightarrow> int \<Rightarrow> int \<Rightarrow> int \<Rightarrow> cint \<Rightarrow> cint list option" where
  "st_update t node start end idx val =
     (if start = end then wr t node val
      else do {
        let mid = (start + end) sdiv 2;
        t1 \<leftarrow> (if start \<le> idx \<and> idx \<le> mid
               then st_update t (2 * node + 1) start mid idx val
               else st_update t (2 * node + 2) (mid + 1) end idx val);
        l \<leftarrow> rd t1 (2 * node + 1);
        r \<leftarrow> rd t1 (2 * node + 2);
        wr t1 node (combine l r)
      })"

partial_function (option) st_query ::
  "cint list \<Rightarrow> int \<Rightarrow> int \<Rightarrow> int \<Rightarrow> int \<Rightarrow> int \<Rightarrow> cint option" where
  "st_query t node start end l r =
     (if r < start \<or> end < l then Some 0
      else if l \<le> start \<and> end \<le> r then rd t node
      else do {
        let mid = (start + end) sdiv 2;
        p1 \<leftarrow> st_query t (2 * node + 1) start mid l r;
        p2 \<leftarrow> st_query t (2 * node + 2) (mid + 1) end l r;
        Some (combine p1 p2)
      })"

declare st_build.simps [code] st_update.simps [code] st_query.simps [code]

definition build_from_mapped_values :: "SegmentTree \<Rightarrow> cint list \<Rightarrow> SegmentTree option" where
  "build_from_mapped_values st values_at_pos =
     (if values_at_pos = [] then Some st
      else do {
        t \<leftarrow> st_build values_at_pos (st_tree st) 0 0 (st_n st - 1);
        Some (st\<lparr>st_tree := t\<rparr>)
      })"

definition seg_update :: "SegmentTree \<Rightarrow> int \<Rightarrow> cint \<Rightarrow> SegmentTree option" where
  "seg_update st index val =
     do {
       t \<leftarrow> st_update (st_tree st) 0 0 (st_n st - 1) index val;
       Some (st\<lparr>st_tree := t\<rparr>)
     }"

definition seg_query :: "SegmentTree \<Rightarrow> int \<Rightarrow> int \<Rightarrow> cint option" where
  "seg_query st query_left query_right =
     (if query_left > query_right then Some 0
      else st_query (st_tree st) 0 0 (st_n st - 1) query_left query_right)"

subsection \<open>class HLD\<close>

record HLD =
  num_nodes :: int
  adj :: "int list list"
  node_values :: "cint list"
  parent :: "int list"
  depth :: "int list"
  subtree_size :: "int list"
  heavy_child :: "int list"
  head :: "int list"
  pos :: "int list"
  cur_pos :: int
  seg_tree :: SegmentTree

definition HLD_new :: "int \<Rightarrow> cint list \<Rightarrow> HLD" where
  "HLD_new n node_initial_values =
     \<lparr> num_nodes = n,
       adj = replicate (nat n) [],
       node_values = node_initial_values,
       parent = replicate (nat n) (- 1),
       depth = replicate (nat n) 0,
       subtree_size = replicate (nat n) 1,
       heavy_child = replicate (nat n) (- 1),
       head = replicate (nat n) 0,
       pos = replicate (nat n) 0,
       cur_pos = 0,
       seg_tree = SegmentTree_new n \<rparr>"

definition add_edge :: "HLD \<Rightarrow> int \<Rightarrow> int \<Rightarrow> HLD option" where
  "add_edge s u v =
     do {
       au \<leftarrow> rd (adj s) u;
       a1 \<leftarrow> wr (adj s) u (au @ [v]);
       av \<leftarrow> rd a1 v;
       a2 \<leftarrow> wr a1 v (av @ [u]);
       Some (s\<lparr>adj := a2\<rparr>)
     }"

fun add_edges :: "HLD \<Rightarrow> (int \<times> int) list \<Rightarrow> HLD option" where
  "add_edges s [] = Some s"
| "add_edges s ((u, v) # es) = do { s1 \<leftarrow> add_edge s u v; add_edges s1 es }"

text \<open>
  The two depth-first passes recurse on the call stack and never end on a graph with a
  cycle. The first argument bounds the depth of the recursion: \<open>None\<close> is also the result
  of a run that would need a deeper stack. The \<open>_for\<close> functions are the range-based
  \<^verbatim>\<open>for\<close> loops over \<open>adj[u]\<close>, on the part of the vector still to visit.
\<close>

fun dfs1_size_depth_parent :: "nat \<Rightarrow> HLD \<Rightarrow> int \<Rightarrow> int \<Rightarrow> int \<Rightarrow> HLD option"
  and dfs1_for :: "nat \<Rightarrow> HLD \<Rightarrow> int \<Rightarrow> int \<Rightarrow> int \<Rightarrow> int \<Rightarrow> int list \<Rightarrow> HLD option" where
  "dfs1_size_depth_parent 0 s u p d = None"
| "dfs1_size_depth_parent (Suc k) s u p d =
     do {
       par \<leftarrow> wr (parent s) u p;
       dep \<leftarrow> wr (depth s) u d;
       sz \<leftarrow> wr (subtree_size s) u 1;
       nbrs \<leftarrow> rd (adj s) u;
       dfs1_for k (s\<lparr>parent := par, depth := dep, subtree_size := sz\<rparr>) u p d 0 nbrs
     }"
| "dfs1_for k s u p d max_c_subtree_size [] = Some s"
| "dfs1_for k s u p d max_c_subtree_size (v # vs) =
     (if v = p then dfs1_for k s u p d max_c_subtree_size vs
      else do {
        s1 \<leftarrow> dfs1_size_depth_parent k s v u (d + 1);
        su \<leftarrow> rd (subtree_size s1) u;
        sv \<leftarrow> rd (subtree_size s1) v;
        sz \<leftarrow> wr (subtree_size s1) u (su + sv);
        sv' \<leftarrow> rd sz v;
        if sv' > max_c_subtree_size
        then do {
          hc \<leftarrow> wr (heavy_child s1) u v;
          dfs1_for k (s1\<lparr>subtree_size := sz, heavy_child := hc\<rparr>) u p d sv' vs
        }
        else dfs1_for k (s1\<lparr>subtree_size := sz\<rparr>) u p d max_c_subtree_size vs
      })"

fun dfs2_hld :: "nat \<Rightarrow> HLD \<Rightarrow> int \<Rightarrow> int \<Rightarrow> HLD option"
  and dfs2_for :: "nat \<Rightarrow> HLD \<Rightarrow> int \<Rightarrow> int list \<Rightarrow> HLD option" where
  "dfs2_hld 0 s u h = None"
| "dfs2_hld (Suc k) s u h =
     do {
       hd' \<leftarrow> wr (head s) u h;
       ps \<leftarrow> wr (pos s) u (cur_pos s);
       let s1 = s\<lparr>head := hd', pos := ps, cur_pos := cur_pos s + 1\<rparr>;
       hc \<leftarrow> rd (heavy_child s1) u;
       s2 \<leftarrow> (if hc \<noteq> - 1 then dfs2_hld k s1 hc h else Some s1);
       nbrs \<leftarrow> rd (adj s2) u;
       dfs2_for k s2 u nbrs
     }"
| "dfs2_for k s u [] = Some s"
| "dfs2_for k s u (v # vs) =
     do {
       pu \<leftarrow> rd (parent s) u;
       hc \<leftarrow> rd (heavy_child s) u;
       if v = pu \<or> v = hc then dfs2_for k s u vs
       else do { s1 \<leftarrow> dfs2_hld k s v v; dfs2_for k s1 u vs }
     }"

text \<open>The loop of \<open>build\<close> that permutes the values into position order.\<close>

function values_loop :: "HLD \<Rightarrow> int \<Rightarrow> cint list \<Rightarrow> cint list option" where
  "values_loop s i values_for_seg_tree =
     (if i < num_nodes s
      then do {
        p \<leftarrow> rd (pos s) i;
        x \<leftarrow> rd (node_values s) i;
        vs \<leftarrow> wr values_for_seg_tree p x;
        values_loop s (i + 1) vs
      }
      else Some values_for_seg_tree)"
  by pat_completeness auto
termination
  by (relation "measure (\<lambda>(s, i, vs). nat (num_nodes s - i))") auto

definition build :: "nat \<Rightarrow> HLD \<Rightarrow> int \<Rightarrow> HLD option" where
  "build k s root =
     do {
       s1 \<leftarrow> dfs1_size_depth_parent k s root (- 1) 0;
       s2 \<leftarrow> dfs2_hld k s1 root root;
       vs \<leftarrow> values_loop s2 0 (replicate (nat (num_nodes s2)) 0);
       st \<leftarrow> build_from_mapped_values (seg_tree s2) vs;
       Some (s2\<lparr>seg_tree := st\<rparr>)
     }"

definition update_node_value :: "HLD \<Rightarrow> int \<Rightarrow> cint \<Rightarrow> HLD option" where
  "update_node_value s u new_value =
     do {
       vs \<leftarrow> wr (node_values s) u new_value;
       p \<leftarrow> rd (pos s) u;
       st \<leftarrow> seg_update (seg_tree s) p new_value;
       Some (s\<lparr>node_values := vs, seg_tree := st\<rparr>)
     }"

text \<open>
  The chain-jump loops of \<open>query_path\<close> and \<open>get_lca\<close>; on arbitrary vectors they need
  not end, so they are partial functions.
\<close>

partial_function (option) query_path_loop ::
  "HLD \<Rightarrow> int \<Rightarrow> int \<Rightarrow> cint \<Rightarrow> (int \<times> int \<times> cint) option" where
  "query_path_loop s u v result =
     do {
       hu \<leftarrow> rd (head s) u;
       hv \<leftarrow> rd (head s) v;
       if hu \<noteq> hv
       then do {
         dhu \<leftarrow> rd (depth s) hu;
         dhv \<leftarrow> rd (depth s) hv;
         let (u, v) = (if dhu < dhv then (v, u) else (u, v));
         hu \<leftarrow> rd (head s) u;
         phu \<leftarrow> rd (pos s) hu;
         pu \<leftarrow> rd (pos s) u;
         q \<leftarrow> seg_query (seg_tree s) phu pu;
         u' \<leftarrow> rd (parent s) hu;
         query_path_loop s u' v (result + q)
       }
       else Some (u, v, result)
     }"

definition query_path :: "HLD \<Rightarrow> int \<Rightarrow> int \<Rightarrow> cint option" where
  "query_path s u v =
     do {
       (u, v, result) \<leftarrow> query_path_loop s u v 0;
       du \<leftarrow> rd (depth s) u;
       dv \<leftarrow> rd (depth s) v;
       let (u, v) = (if du > dv then (v, u) else (u, v));
       pu \<leftarrow> rd (pos s) u;
       pv \<leftarrow> rd (pos s) v;
       q \<leftarrow> seg_query (seg_tree s) pu pv;
       Some (result + q)
     }"

partial_function (option) get_lca_loop :: "HLD \<Rightarrow> int \<Rightarrow> int \<Rightarrow> (int \<times> int) option" where
  "get_lca_loop s u v =
     do {
       hu \<leftarrow> rd (head s) u;
       hv \<leftarrow> rd (head s) v;
       if hu \<noteq> hv
       then do {
         dhu \<leftarrow> rd (depth s) hu;
         dhv \<leftarrow> rd (depth s) hv;
         let (u, v) = (if dhu < dhv then (v, u) else (u, v));
         hu \<leftarrow> rd (head s) u;
         u' \<leftarrow> rd (parent s) hu;
         get_lca_loop s u' v
       }
       else Some (u, v)
     }"

definition get_lca :: "HLD \<Rightarrow> int \<Rightarrow> int \<Rightarrow> int option" where
  "get_lca s u v =
     do {
       (u, v) \<leftarrow> get_lca_loop s u v;
       du \<leftarrow> rd (depth s) u;
       dv \<leftarrow> rd (depth s) v;
       Some (if du < dv then u else v)
     }"

declare query_path_loop.simps [code] get_lca_loop.simps [code]

datatype rtree = Node (rlabel: int) (kids: "rtree list")

fun labels :: "rtree \<Rightarrow> int list" where
  "labels (Node u cs) = u # concat (map labels cs)"

definition rsize :: "rtree \<Rightarrow> int" where
  "rsize t = int (length (labels t))"

fun wf_rt :: "int list list \<Rightarrow> int \<Rightarrow> rtree \<Rightarrow> bool" where
  "wf_rt a p (Node u cs) =
     (0 \<le> u \<and> u < int (length a) \<and> filter (\<lambda>v. v \<noteq> p) (a ! nat u) = map rlabel cs \<and>
      (\<forall>c \<in> set cs. wf_rt a u c))"

fun span :: "nat \<Rightarrow> int list list \<Rightarrow> int \<Rightarrow> int \<Rightarrow> rtree option" where
  "span 0 a u p = None"
| "span (Suc k) a u p =
     (case rd a u of None \<Rightarrow> None
      | Some ns \<Rightarrow> map_option (Node u) (those (map (\<lambda>v. span k a v u) (filter (\<lambda>v. v \<noteq> p) ns))))"

fun heavy_step :: "rtree \<Rightarrow> int \<times> int \<Rightarrow> int \<times> int" where
  "heavy_step c (mx, h) = (if rsize c > mx then (rsize c, rlabel c) else (mx, h))"

definition heavy_of :: "rtree \<Rightarrow> int" where
  "heavy_of t = snd (fold heavy_step (kids t) (0, - 1))"

fun ctx :: "int \<Rightarrow> int \<Rightarrow> rtree \<Rightarrow> (int \<times> int \<times> rtree) list" where
  "ctx p d (Node u cs) = (p, d, Node u cs) # concat (map (ctx u (d + 1)) cs)"

fun hl :: "int \<Rightarrow> rtree \<Rightarrow> (int \<times> int) list" where
  "hl h (Node u cs) =
     (u, h) # concat (map (hl h) (filter (\<lambda>c. rlabel c = heavy_of (Node u cs)) cs))
       @ concat (map (\<lambda>c. hl (rlabel c) c) (filter (\<lambda>c. rlabel c \<noteq> heavy_of (Node u cs)) cs))"


definition same_off :: "int list \<Rightarrow> 'a list \<Rightarrow> 'a list \<Rightarrow> bool" where
  "same_off X xs ys = (length ys = length xs \<and> (\<forall>i. 0 \<le> i \<longrightarrow> i \<notin> set X \<longrightarrow> ys ! nat i = xs ! nat i))"

definition lens1 :: "HLD \<Rightarrow> bool" where
  "lens1 s = (length (parent s) = length (adj s) \<and> length (depth s) = length (adj s) \<and>
     length (subtree_size s) = length (adj s) \<and> length (heavy_child s) = length (adj s))"

definition dfs1_frame :: "int list \<Rightarrow> HLD \<Rightarrow> HLD \<Rightarrow> bool" where
  "dfs1_frame X s s' =
     (same_off X (parent s) (parent s') \<and> same_off X (depth s) (depth s') \<and>
      same_off X (subtree_size s) (subtree_size s') \<and> same_off X (heavy_child s) (heavy_child s') \<and>
      num_nodes s' = num_nodes s \<and> adj s' = adj s \<and> node_values s' = node_values s \<and>
      head s' = head s \<and> pos s' = pos s \<and> cur_pos s' = cur_pos s \<and> seg_tree s' = seg_tree s)"

fun node1 :: "HLD \<Rightarrow> int \<times> int \<times> rtree \<Rightarrow> bool" where
  "node1 s (px, dx, tx) =
     (parent s ! nat (rlabel tx) = px \<and> depth s ! nat (rlabel tx) = dx \<and>
      subtree_size s ! nat (rlabel tx) = rsize tx \<and> heavy_child s ! nat (rlabel tx) = heavy_of tx)"

lemma rd_Some [simp]: "0 \<le> i \<Longrightarrow> i < int (length xs) \<Longrightarrow> rd xs i = Some (xs ! nat i)"
  by (simp add: rd_def)

lemma wr_Some [simp]: "0 \<le> i \<Longrightarrow> i < int (length xs) \<Longrightarrow> wr xs i v = Some (xs[nat i := v])"
  by (simp add: wr_def)

lemma same_off_refl [simp]: "same_off X xs xs"
  by (simp add: same_off_def)

lemma same_off_trans: "same_off X xs ys \<Longrightarrow> same_off Y ys zs \<Longrightarrow> set X \<subseteq> set Z \<Longrightarrow> set Y \<subseteq> set Z \<Longrightarrow> same_off Z xs zs"
  unfolding same_off_def by (metis subsetD)

lemma same_off_upd: "same_off X xs ys \<Longrightarrow> 0 \<le> u \<Longrightarrow> u \<in> set X \<Longrightarrow> same_off X xs (ys[nat u := v])"
proof -
  assume a: "same_off X xs ys" "0 \<le> u" "u \<in> set X"
  have "ys[nat u := v] ! nat i = xs ! nat i" if "0 \<le> i" "i \<notin> set X" for i
  proof -
    from that a have "nat u \<noteq> nat i" by (auto simp: eq_nat_nat_iff)
    then show ?thesis using a that by (simp add: same_off_def)
  qed
  then show ?thesis using a by (simp add: same_off_def)
qed

lemma same_off_nth: "same_off X xs ys \<Longrightarrow> 0 \<le> i \<Longrightarrow> i \<notin> set X \<Longrightarrow> ys ! nat i = xs ! nat i"
  by (simp add: same_off_def)

lemma same_off_len: "same_off X xs ys \<Longrightarrow> length ys = length xs"
  by (simp add: same_off_def)

lemma labels_rlabel: "rlabel t \<in> set (labels t)"
  by (cases t) simp

lemma ctx_hd: "(p, d, t) \<in> set (ctx p d t)"
  by (cases t) simp

lemma ctx_labels: "(px, dx, tx) \<in> set (ctx p d t) \<Longrightarrow> rlabel tx \<in> set (labels t)"
proof (induction t arbitrary: p d)
  case (Node u cs)
  then show ?case by (fastforce)
qed

lemma wf_rt_range: "wf_rt a p t \<Longrightarrow> x \<in> set (labels t) \<Longrightarrow> 0 \<le> x \<and> x < int (length a)"
proof (induction t arbitrary: p)
  case (Node u cs)
  then show ?case by (fastforce)
qed

lemma rsize_Node: "rsize (Node u cs) = 1 + (\<Sum>c\<leftarrow>cs. rsize c)"
  by (simp add: rsize_def length_concat comp_def) (induction cs; simp)


definition dfs1_pre :: "int list list \<Rightarrow> int list \<Rightarrow> HLD \<Rightarrow> bool" where
  "dfs1_pre a X s = (adj s = a \<and> lens1 s \<and> (\<forall>x\<in>set X. heavy_child s ! nat x = - 1))"

lemma dfs1_frame_refl [simp]: "dfs1_frame X s s"
  by (simp add: dfs1_frame_def)

lemma dfs1_frame_trans:
  "dfs1_frame X s s1 \<Longrightarrow> dfs1_frame Y s1 s2 \<Longrightarrow> set X \<subseteq> set Z \<Longrightarrow> set Y \<subseteq> set Z \<Longrightarrow> dfs1_frame Z s s2"
  unfolding dfs1_frame_def
  by (intro conjI; (blast intro: same_off_trans | simp))

lemma dfs1_frame_adj: "dfs1_frame X s s' \<Longrightarrow> adj s' = adj s"
  by (simp add: dfs1_frame_def)

lemma dfs1_frame_lens: "dfs1_frame X s s' \<Longrightarrow> lens1 s \<Longrightarrow> lens1 s'"
  by (frule dfs1_frame_adj) (simp add: dfs1_frame_def lens1_def same_off_def)

lemma dfs1_frame_node1:
  "dfs1_frame X s s' \<Longrightarrow> node1 s (px, dx, tx) \<Longrightarrow> 0 \<le> rlabel tx \<Longrightarrow> rlabel tx \<notin> set X \<Longrightarrow> node1 s' (px, dx, tx)"
  by (simp add: dfs1_frame_def same_off_def)

lemma dfs1_frame_heavy:
  "dfs1_frame X s s' \<Longrightarrow> 0 \<le> x \<Longrightarrow> x \<notin> set X \<Longrightarrow> heavy_child s' ! nat x = heavy_child s ! nat x"
  by (simp add: dfs1_frame_def same_off_def)

lemma dfs1_frame_size:
  "dfs1_frame X s s' \<Longrightarrow> 0 \<le> x \<Longrightarrow> x \<notin> set X \<Longrightarrow> subtree_size s' ! nat x = subtree_size s ! nat x"
  by (simp add: dfs1_frame_def same_off_def)

lemma dfs1_frame_parent:
  "dfs1_frame X s s' \<Longrightarrow> 0 \<le> x \<Longrightarrow> x \<notin> set X \<Longrightarrow> parent s' ! nat x = parent s ! nat x"
  by (simp add: dfs1_frame_def same_off_def)

lemma dfs1_frame_depth:
  "dfs1_frame X s s' \<Longrightarrow> 0 \<le> x \<Longrightarrow> x \<notin> set X \<Longrightarrow> depth s' ! nat x = depth s ! nat x"
  by (simp add: dfs1_frame_def same_off_def)

lemma dfs1_frame_upd_size:
  "0 \<le> u \<Longrightarrow> dfs1_frame [u] s (s\<lparr>subtree_size := (subtree_size s)[nat u := x]\<rparr>)"
  by (simp add: dfs1_frame_def same_off_upd)

lemma dfs1_frame_upd_size_heavy:
  "0 \<le> u \<Longrightarrow> dfs1_frame [u] s (s\<lparr>subtree_size := (subtree_size s)[nat u := x], heavy_child := (heavy_child s)[nat u := y]\<rparr>)"
  by (simp add: dfs1_frame_def same_off_upd)


lemma dfs1_for_ok:
  assumes IH: "\<And>c s0 d0. c \<in> set cs \<Longrightarrow> dfs1_pre a (labels c) s0 \<Longrightarrow>
            \<exists>s'. dfs1_size_depth_parent k s0 (rlabel c) u d0 = Some s' \<and> dfs1_frame (labels c) s0 s' \<and>
                 (\<forall>e\<in>set (ctx u d0 c). node1 s' e)"
    and "filter (\<lambda>v. v \<noteq> p) vs = map rlabel cs"
    and "distinct (concat (map labels cs))" "u \<notin> set (concat (map labels cs))"
    and "\<forall>x\<in>set (concat (map labels cs)). 0 \<le> x \<and> x < int (length a)"
    and "0 \<le> u" "u < int (length a)"
    and "dfs1_pre a (concat (map labels cs)) s"
  shows "\<exists>s'. dfs1_for k s u p d mx vs = Some s' \<and> dfs1_frame (u # concat (map labels cs)) s s' \<and>
           parent s' ! nat u = parent s ! nat u \<and> depth s' ! nat u = depth s ! nat u \<and>
           subtree_size s' ! nat u = subtree_size s ! nat u + (\<Sum>c\<leftarrow>cs. rsize c) \<and>
           heavy_child s' ! nat u = snd (fold heavy_step cs (mx, heavy_child s ! nat u)) \<and>
           (\<forall>e\<in>set (concat (map (ctx u (d + 1)) cs)). node1 s' e)"
  using assms
proof (induction vs arbitrary: cs s mx)
  case Nil
  then show ?case by simp
next
  case (Cons v vs)
  show ?case
  proof (cases "v = p")
    case True
    with Cons.prems have "filter (\<lambda>v. v \<noteq> p) vs = map rlabel cs" by simp
    from Cons.IH [OF Cons.prems(1) this Cons.prems(3-8), of mx] True
    show ?thesis by simp
  next
    case False
    with Cons.prems(2) obtain c cs' where cs: "cs = c # cs'" and v: "rlabel c = v"
      and flt: "filter (\<lambda>v. v \<noteq> p) vs = map rlabel cs'"
      by (cases cs) auto
    have pre: "adj s = a" "lens1 s" using Cons.prems(8) by (simp_all add: dfs1_pre_def)
    have vin: "v \<in> set (labels c)" using v labels_rlabel by blast
    have vr: "0 \<le> v" "v < int (length a)" using Cons.prems(5) vin cs by auto
    have uv: "u \<noteq> v" using Cons.prems(4) vin cs by auto
    have unc: "u \<notin> set (labels c)" using Cons.prems(4) cs by simp
    have "dfs1_pre a (labels c) s" using Cons.prems(8) cs by (simp add: dfs1_pre_def)
    from Cons.prems(1) [of c s "d + 1"] this cs
    obtain s1 where s1: "dfs1_size_depth_parent k s v u (d + 1) = Some s1"
      and fr1: "dfs1_frame (labels c) s s1" and n1: "\<forall>e\<in>set (ctx u (d + 1) c). node1 s1 e"
      using v by auto
    have l1: "lens1 s1" "adj s1 = a" using fr1 pre dfs1_frame_lens dfs1_frame_adj by auto
    have sv: "subtree_size s1 ! nat v = rsize c" using n1 ctx_hd [of u "d + 1" c] v by fastforce
    have su: "subtree_size s1 ! nat u = subtree_size s ! nat u"
      by (rule dfs1_frame_size [OF fr1 Cons.prems(6) unc])
    define sz where "sz = (subtree_size s1)[nat u := subtree_size s1 ! nat u + rsize c]"
    define s2 where "s2 = (if rsize c > mx
         then s1\<lparr>subtree_size := sz, heavy_child := (heavy_child s1)[nat u := v]\<rparr>
         else s1\<lparr>subtree_size := sz\<rparr>)"
    define mx' where "mx' = (if rsize c > mx then rsize c else mx)"
    have nuv: "nat u \<noteq> nat v" using uv vr Cons.prems(6) by (simp add: eq_nat_nat_iff)
    have step: "dfs1_for k s u p d mx (v # vs) = dfs1_for k s2 u p d mx' vs"
      using False s1 l1 vr Cons.prems(6,7) sv nuv
      by (simp add: lens1_def sz_def s2_def mx'_def)
    have fr2: "dfs1_frame [u] s1 s2"
      using Cons.prems(6) dfs1_frame_upd_size dfs1_frame_upd_size_heavy
      by (simp add: s2_def sz_def)
    have fr12: "dfs1_frame (u # labels c) s s2"
      by (rule dfs1_frame_trans [OF fr1 fr2]) auto
    have pre2: "dfs1_pre a (concat (map labels cs')) s2"
    proof -
      have "heavy_child s2 ! nat x = - 1" if "x \<in> set (concat (map labels cs'))" for x
      proof -
        have "x \<notin> set (u # labels c)" using that Cons.prems(3,4) cs by auto
        moreover have "0 \<le> x" using that Cons.prems(5) cs by auto
        ultimately have "heavy_child s2 ! nat x = heavy_child s ! nat x"
          using fr12 dfs1_frame_heavy by blast
        then show ?thesis using Cons.prems(8) that cs by (simp add: dfs1_pre_def)
      qed
      then show ?thesis using fr12 pre dfs1_frame_lens dfs1_frame_adj
        by (auto simp: dfs1_pre_def)
    qed
    have IHc: "\<And>c s0 d0. c \<in> set cs' \<Longrightarrow> dfs1_pre a (labels c) s0 \<Longrightarrow>
            \<exists>s'. dfs1_size_depth_parent k s0 (rlabel c) u d0 = Some s' \<and> dfs1_frame (labels c) s0 s' \<and>
                 (\<forall>e\<in>set (ctx u d0 c). node1 s' e)"
      using Cons.prems(1) cs by simp
    have d3: "distinct (concat (map labels cs'))" "u \<notin> set (concat (map labels cs'))"
      "\<forall>x\<in>set (concat (map labels cs')). 0 \<le> x \<and> x < int (length a)"
      using Cons.prems(3,4,5) cs by auto
    from Cons.IH [OF IHc flt d3 Cons.prems(6,7) pre2, of mx']
    obtain s' where s': "dfs1_for k s2 u p d mx' vs = Some s'"
      and fr3: "dfs1_frame (u # concat (map labels cs')) s2 s'"
      and par: "parent s' ! nat u = parent s2 ! nat u"
      and dep: "depth s' ! nat u = depth s2 ! nat u"
      and siz: "subtree_size s' ! nat u = subtree_size s2 ! nat u + (\<Sum>c\<leftarrow>cs'. rsize c)"
      and hea: "heavy_child s' ! nat u = snd (fold heavy_step cs' (mx', heavy_child s2 ! nat u))"
      and n3: "\<forall>e\<in>set (concat (map (ctx u (d + 1)) cs')). node1 s' e"
      by blast
    have fr: "dfs1_frame (u # concat (map labels cs)) s s'"
      by (rule dfs1_frame_trans [OF fr12 fr3]) (auto simp: cs)
    have lu: "nat u < length (subtree_size s1)" "nat u < length (heavy_child s1)"
      using l1 Cons.prems(6,7) by (auto simp: lens1_def)
    have p2: "parent s2 ! nat u = parent s ! nat u" "depth s2 ! nat u = depth s ! nat u"
      using dfs1_frame_parent [OF fr1 Cons.prems(6) unc] dfs1_frame_depth [OF fr1 Cons.prems(6) unc]
      by (simp_all add: s2_def)
    have s2u: "subtree_size s2 ! nat u = subtree_size s ! nat u + rsize c"
      using lu su by (simp add: s2_def sz_def)
    have h2u: "(mx', heavy_child s2 ! nat u) = heavy_step c (mx, heavy_child s ! nat u)"
      using lu v dfs1_frame_heavy [OF fr1 Cons.prems(6) unc] by (simp add: s2_def mx'_def)
    have nc: "node1 s' e" if "e \<in> set (ctx u (d + 1) c)" for e
    proof -
      obtain px dx tx where e: "e = (px, dx, tx)" by (cases e) auto
      have lx: "rlabel tx \<in> set (labels c)" using that e ctx_labels by blast
      then have "0 \<le> rlabel tx" using Cons.prems(5) cs by auto
      moreover have "rlabel tx \<notin> set (u # concat (map labels cs'))"
        using lx Cons.prems(3,4) cs by auto
      moreover have "rlabel tx \<notin> set [u]" using lx unc by auto
      moreover have "node1 s1 (px, dx, tx)" using n1 that e by blast
      ultimately show ?thesis using fr2 fr3 e dfs1_frame_node1 by blast
    qed
    show ?thesis
      using step s' fr par dep siz hea n3 nc p2 s2u h2u
      by (auto simp: cs)
  qed
qed


lemma dfs1_frame_upd3:
  "0 \<le> u \<Longrightarrow> dfs1_frame [u] s (s\<lparr>parent := (parent s)[nat u := x], depth := (depth s)[nat u := y],
      subtree_size := (subtree_size s)[nat u := z]\<rparr>)"
  by (simp add: dfs1_frame_def same_off_upd)

lemma length_concat_le: "c \<in> set cs \<Longrightarrow> length (f c) \<le> length (concat (map f cs))"
  by (induction cs) auto

lemma distinct_concat_elem: "distinct (concat (map f cs)) \<Longrightarrow> c \<in> set cs \<Longrightarrow> distinct (f c)"
  by (induction cs) auto

lemma dfs1_ok:
  "wf_rt a p t \<Longrightarrow> distinct (labels t) \<Longrightarrow> length (labels t) \<le> k \<Longrightarrow> dfs1_pre a (labels t) s \<Longrightarrow>
   \<exists>s'. dfs1_size_depth_parent k s (rlabel t) p d = Some s' \<and> dfs1_frame (labels t) s s' \<and>
        (\<forall>e\<in>set (ctx p d t). node1 s' e)"
proof (induction t arbitrary: s p d k)
  case (Node u cs)
  from Node.prems(3) obtain k' where k: "k = Suc k'" and k': "length (concat (map labels cs)) \<le> k'"
    by (cases k) auto
  have ur: "0 \<le> u" "u < int (length a)" and flt: "filter (\<lambda>v. v \<noteq> p) (a ! nat u) = map rlabel cs"
    and wfc: "\<forall>c\<in>set cs. wf_rt a u c"
    using Node.prems(1) by auto
  have pre: "adj s = a" "lens1 s" "heavy_child s ! nat u = - 1"
    using Node.prems(4) by (simp_all add: dfs1_pre_def)
  define s0 where "s0 = s\<lparr>parent := (parent s)[nat u := p], depth := (depth s)[nat u := d],
      subtree_size := (subtree_size s)[nat u := 1]\<rparr>"
  have step: "dfs1_size_depth_parent k s u p d = dfs1_for k' s0 u p d 0 (a ! nat u)"
    using k ur pre by (simp add: lens1_def s0_def)
  have fr0: "dfs1_frame [u] s s0" unfolding s0_def by (rule dfs1_frame_upd3 [OF ur(1)])
  have lu: "nat u < length (parent s)" "nat u < length (depth s)" "nat u < length (subtree_size s)"
    using pre ur by (auto simp: lens1_def)
  have s0u: "parent s0 ! nat u = p" "depth s0 ! nat u = d" "subtree_size s0 ! nat u = 1"
    "heavy_child s0 ! nat u = - 1"
    using lu pre by (simp_all add: s0_def)
  have pre0: "dfs1_pre a (concat (map labels cs)) s0"
    using Node.prems(4) by (simp add: dfs1_pre_def s0_def lens1_def)
  have IH: "\<exists>s'. dfs1_size_depth_parent k' s1 (rlabel c) u d0 = Some s' \<and> dfs1_frame (labels c) s1 s' \<and>
                 (\<forall>e\<in>set (ctx u d0 c). node1 s' e)"
    if "c \<in> set cs" "dfs1_pre a (labels c) s1" for c s1 d0
  proof (rule Node.IH [OF that(1) _ _ _ that(2)])
    show "wf_rt a u c" using wfc that(1) by blast
    show "distinct (labels c)" using Node.prems(2) that(1) by (auto intro: distinct_concat_elem)
    show "length (labels c) \<le> k'" using k' length_concat_le [OF that(1), of labels] by linarith
  qed
  have d3: "distinct (concat (map labels cs))" "u \<notin> set (concat (map labels cs))"
    using Node.prems(2) by auto
  have rng: "\<forall>x\<in>set (concat (map labels cs)). 0 \<le> x \<and> x < int (length a)"
    using wfc wf_rt_range by fastforce
  from dfs1_for_ok [of cs a k' u p "a ! nat u" s0 d 0, OF IH flt d3 rng ur pre0]
  obtain s' where s': "dfs1_for k' s0 u p d 0 (a ! nat u) = Some s'"
      and fr3: "dfs1_frame (u # concat (map labels cs)) s0 s'"
      and par: "parent s' ! nat u = parent s0 ! nat u"
      and dep: "depth s' ! nat u = depth s0 ! nat u"
      and siz: "subtree_size s' ! nat u = subtree_size s0 ! nat u + (\<Sum>c\<leftarrow>cs. rsize c)"
      and hea: "heavy_child s' ! nat u = snd (fold heavy_step cs (0, heavy_child s0 ! nat u))"
      and n3: "\<forall>e\<in>set (concat (map (ctx u (d + 1)) cs)). node1 s' e"
    by blast
  have fr: "dfs1_frame (labels (Node u cs)) s s'"
    by (rule dfs1_frame_trans [OF fr0 fr3]) auto
  have "node1 s' (p, d, Node u cs)"
    using par dep siz hea s0u by (simp add: rsize_Node heavy_of_def)
  then show ?case using step s' fr n3 by simp
qed

definition placed :: "HLD \<Rightarrow> int \<Rightarrow> (int \<times> int) list \<Rightarrow> bool" where
  "placed s c0 xs = (\<forall>i<length xs. pos s ! nat (fst (xs ! i)) = c0 + int i \<and>
                                  head s ! nat (fst (xs ! i)) = snd (xs ! i))"

definition lens2 :: "HLD \<Rightarrow> bool" where
  "lens2 s = (lens1 s \<and> length (head s) = length (adj s) \<and> length (pos s) = length (adj s))"

definition dfs2_frame :: "int list \<Rightarrow> HLD \<Rightarrow> HLD \<Rightarrow> bool" where
  "dfs2_frame X s s' =
     (same_off X (head s) (head s') \<and> same_off X (pos s) (pos s') \<and>
      num_nodes s' = num_nodes s \<and> adj s' = adj s \<and> node_values s' = node_values s \<and>
      parent s' = parent s \<and> depth s' = depth s \<and> subtree_size s' = subtree_size s \<and>
      heavy_child s' = heavy_child s \<and> seg_tree s' = seg_tree s)"

definition dfs2_pre :: "int list list \<Rightarrow> int \<Rightarrow> int \<Rightarrow> rtree \<Rightarrow> HLD \<Rightarrow> bool" where
  "dfs2_pre a p d t s = (adj s = a \<and> lens2 s \<and> (\<forall>e\<in>set (ctx p d t). node1 s e))"

definition dfs2_post :: "int \<Rightarrow> rtree \<Rightarrow> HLD \<Rightarrow> HLD \<Rightarrow> bool" where
  "dfs2_post h t s s' = (dfs2_frame (labels t) s s' \<and> cur_pos s' = cur_pos s + rsize t \<and>
                         placed s' (cur_pos s) (hl h t))"

lemma placed_Nil [simp]: "placed s c0 []"
  by (simp add: placed_def)

lemma placed_Cons:
  "placed s c0 (x # xs) \<longleftrightarrow>
     pos s ! nat (fst x) = c0 \<and> head s ! nat (fst x) = snd x \<and> placed s (c0 + 1) xs"
  unfolding placed_def
  by (auto simp: nth_Cons split: nat.splits)


lemma placed_append:
  "placed s c0 (xs @ ys) \<longleftrightarrow> placed s c0 xs \<and> placed s (c0 + int (length xs)) ys"
  by (induction xs arbitrary: c0) (auto simp: placed_Cons add.assoc)

lemma dfs2_frame_refl [simp]: "dfs2_frame X s s"
  by (simp add: dfs2_frame_def)

lemma dfs2_frame_trans:
  "dfs2_frame X s s1 \<Longrightarrow> dfs2_frame Y s1 s2 \<Longrightarrow> set X \<subseteq> set Z \<Longrightarrow> set Y \<subseteq> set Z \<Longrightarrow> dfs2_frame Z s s2"
  unfolding dfs2_frame_def
  by (intro conjI; (blast intro: same_off_trans | simp))

lemma dfs2_frame_node1: "dfs2_frame X s s' \<Longrightarrow> node1 s e \<Longrightarrow> node1 s' e"
  by (cases e) (simp add: dfs2_frame_def)

lemma dfs2_frame_lens: "dfs2_frame X s s' \<Longrightarrow> lens2 s \<Longrightarrow> lens2 s'"
  by (simp add: dfs2_frame_def lens2_def lens1_def same_off_def)

lemma dfs2_frame_pre: "dfs2_frame X s s' \<Longrightarrow> dfs2_pre a p d t s \<Longrightarrow> dfs2_pre a p d t s'"
  using dfs2_frame_node1 dfs2_frame_lens by (fastforce simp: dfs2_pre_def dfs2_frame_def)

lemma dfs2_frame_placed:
  "dfs2_frame X s s' \<Longrightarrow> placed s c0 xs \<Longrightarrow> \<forall>x\<in>set xs. 0 \<le> fst x \<and> fst x \<notin> set X \<Longrightarrow> placed s' c0 xs"
  by (simp add: dfs2_frame_def placed_def same_off_def)

lemma sum_list_filter_split:
  "(\<Sum>c\<leftarrow>filter P cs. (f c :: int)) + (\<Sum>c\<leftarrow>filter (\<lambda>c. \<not> P c) cs. f c) = (\<Sum>c\<leftarrow>cs. f c)"
  by (induction cs) auto

lemma length_concat_filter_split:
  "length (concat (map f (filter P cs))) + length (concat (map g (filter (\<lambda>c. \<not> P c) cs)))
     = (\<Sum>c\<leftarrow>cs. if P c then length (f c) else length (g c))"
  by (induction cs) auto

lemma length_hl: "length (hl h t) = length (labels t)"
proof (induction h t rule: hl.induct)
  case (1 h u cs)
  have "(\<Sum>c\<leftarrow>cs. if rlabel c = heavy_of (Node u cs) then length (hl h c) else length (hl (rlabel c) c))
      = (\<Sum>c\<leftarrow>cs. length (labels c))"
    by (rule arg_cong [where f = sum_list], rule map_cong) (auto simp: 1)
  then show ?case
    using length_concat_filter_split [of "hl h" "\<lambda>c. rlabel c = heavy_of (Node u cs)" cs "\<lambda>c. hl (rlabel c) c"]
    by (simp add: length_concat comp_def)
qed

lemma set_hl: "fst ` set (hl h t) = set (labels t)"
proof (induction h t rule: hl.induct)
  case (1 h u cs)
  have "fst ` set (hl h (Node u cs)) = insert u ((\<Union>c\<in>{c\<in>set cs. rlabel c = heavy_of (Node u cs)}. fst ` set (hl h c))
     \<union> (\<Union>c\<in>{c\<in>set cs. rlabel c \<noteq> heavy_of (Node u cs)}. fst ` set (hl (rlabel c) c)))"
    by (auto simp: image_Un image_UN)
  also have "\<dots> = insert u ((\<Union>c\<in>{c\<in>set cs. rlabel c = heavy_of (Node u cs)}. set (labels c))
     \<union> (\<Union>c\<in>{c\<in>set cs. rlabel c \<noteq> heavy_of (Node u cs)}. set (labels c)))"
    using 1 by simp
  also have "\<dots> = set (labels (Node u cs))" by auto
  finally show ?case .
qed

lemma rsize_hl: "rsize t = int (length (hl h t))"
  by (simp add: rsize_def length_hl)


lemma heavy_fold_cases:
  "snd (fold heavy_step cs (mx, h)) = h \<or> snd (fold heavy_step cs (mx, h)) \<in> rlabel ` set cs"
proof (induction cs arbitrary: mx h)
  case Nil
  then show ?case by simp
next
  case (Cons c cs)
  show ?case
    using Cons [of "rsize c" "rlabel c"] Cons [of mx h] by auto
qed

lemma heavy_fold_in:
  "\<exists>c\<in>set cs. rsize c > mx \<Longrightarrow> snd (fold heavy_step cs (mx, h)) \<in> rlabel ` set cs"
proof (induction cs arbitrary: mx h)
  case Nil
  then show ?case by simp
next
  case (Cons c cs)
  show ?case
  proof (cases "rsize c > mx")
    case True
    then show ?thesis using heavy_fold_cases [of cs "rsize c" "rlabel c"] by auto
  next
    case False
    then have "\<exists>c\<in>set cs. rsize c > mx" using Cons.prems by auto
    from Cons.IH [OF this] False show ?thesis by auto
  qed
qed

lemma rsize_pos: "0 < rsize t"
  by (cases t) (simp add: rsize_def)

lemma heavy_of_in: "cs \<noteq> [] \<Longrightarrow> heavy_of (Node u cs) \<in> rlabel ` set cs"
  unfolding heavy_of_def using heavy_fold_in [of cs 0 "- 1"] rsize_pos
  by (cases cs) auto

lemma heavy_of_leaf [simp]: "heavy_of (Node u []) = - 1"
  by (simp add: heavy_of_def)

lemma dfs2_for_ok:
  assumes IH: "\<And>c s0. c \<in> set cs \<Longrightarrow> rlabel c \<noteq> hv \<Longrightarrow> dfs2_pre a u d c s0 \<Longrightarrow>
            \<exists>s'. dfs2_hld k s0 (rlabel c) (rlabel c) = Some s' \<and> dfs2_post (rlabel c) c s0 s'"
    and "filter (\<lambda>v. v \<noteq> p) vs = map rlabel cs"
    and "distinct (concat (map labels cs))"
    and "\<forall>x\<in>set (concat (map labels cs)). 0 \<le> x"
    and "0 \<le> u" "u < int (length a)"
    and "parent s ! nat u = p" "heavy_child s ! nat u = hv"
    and "adj s = a" "lens2 s"
    and "\<forall>c\<in>set cs. \<forall>e\<in>set (ctx u d c). node1 s e"
  shows "\<exists>s'. dfs2_for k s u vs = Some s' \<and>
           dfs2_frame (concat (map labels (filter (\<lambda>c. rlabel c \<noteq> hv) cs))) s s' \<and>
           cur_pos s' = cur_pos s + (\<Sum>c\<leftarrow>filter (\<lambda>c. rlabel c \<noteq> hv) cs. rsize c) \<and>
           placed s' (cur_pos s) (concat (map (\<lambda>c. hl (rlabel c) c) (filter (\<lambda>c. rlabel c \<noteq> hv) cs)))"
  using assms
proof (induction vs arbitrary: cs s)
  case Nil
  then show ?case by simp
next
  case (Cons v vs)
  have lu: "nat u < length (parent s)" "nat u < length (heavy_child s)"
    using Cons.prems(5,6,9,10) by (auto simp: lens2_def lens1_def)
  have rdu: "rd (parent s) u = Some p" "rd (heavy_child s) u = Some hv"
    using lu Cons.prems(5,7,8) by (simp_all add: rd_def)
  show ?case
  proof (cases "v = p")
    case True
    with Cons.prems have "filter (\<lambda>v. v \<noteq> p) vs = map rlabel cs" by simp
    from Cons.IH [OF Cons.prems(1) this Cons.prems(3-11)] True rdu
    show ?thesis by simp
  next
    case False
    with Cons.prems(2) obtain c cs' where cs: "cs = c # cs'" and v: "rlabel c = v"
      and flt: "filter (\<lambda>v. v \<noteq> p) vs = map rlabel cs'"
      by (cases cs) auto
    have IHc: "\<And>c s0. c \<in> set cs' \<Longrightarrow> rlabel c \<noteq> hv \<Longrightarrow> dfs2_pre a u d c s0 \<Longrightarrow>
            \<exists>s'. dfs2_hld k s0 (rlabel c) (rlabel c) = Some s' \<and> dfs2_post (rlabel c) c s0 s'"
      using Cons.prems(1) cs by simp
    have d3: "distinct (concat (map labels cs'))" "\<forall>x\<in>set (concat (map labels cs')). 0 \<le> x"
      using Cons.prems(3,4) cs by auto
    show ?thesis
    proof (cases "v = hv")
      case True
      have n: "\<forall>c\<in>set cs'. \<forall>e\<in>set (ctx u d c). node1 s e" using Cons.prems(11) cs by simp
      from Cons.IH [OF IHc flt d3 Cons.prems(5-10) n] True rdu v cs
      show ?thesis by simp
    next
      case hv: False
      have "dfs2_pre a u d c s" using Cons.prems(9,10,11) cs by (simp add: dfs2_pre_def)
      from Cons.prems(1) [of c s] this hv v cs
      obtain s1 where s1: "dfs2_hld k s v v = Some s1" and post1: "dfs2_post v c s s1" by auto
      have fr1: "dfs2_frame (labels c) s s1" and cp1: "cur_pos s1 = cur_pos s + rsize c"
        and pl1: "placed s1 (cur_pos s) (hl v c)"
        using post1 by (simp_all add: dfs2_post_def)
      have pre1: "parent s1 ! nat u = p" "heavy_child s1 ! nat u = hv" "adj s1 = a" "lens2 s1"
        using fr1 Cons.prems(7-10) dfs2_frame_lens by (auto simp: dfs2_frame_def)
      have n: "\<forall>c\<in>set cs'. \<forall>e\<in>set (ctx u d c). node1 s1 e"
        using Cons.prems(11) cs dfs2_frame_node1 [OF fr1] by simp
      from Cons.IH [OF IHc flt d3 Cons.prems(5,6) pre1 n]
      obtain s' where s': "dfs2_for k s1 u vs = Some s'"
        and fr2: "dfs2_frame (concat (map labels (filter (\<lambda>c. rlabel c \<noteq> hv) cs'))) s1 s'"
        and cp2: "cur_pos s' = cur_pos s1 + (\<Sum>c\<leftarrow>filter (\<lambda>c. rlabel c \<noteq> hv) cs'. rsize c)"
        and pl2: "placed s' (cur_pos s1) (concat (map (\<lambda>c. hl (rlabel c) c) (filter (\<lambda>c. rlabel c \<noteq> hv) cs')))"
        by blast
      have step: "dfs2_for k s u (v # vs) = Some s'"
        using False hv rdu s1 s' by simp
      have fr: "dfs2_frame (concat (map labels (filter (\<lambda>c. rlabel c \<noteq> hv) cs))) s s'"
        by (rule dfs2_frame_trans [OF fr1 fr2]) (use hv v cs in auto)
      have "\<forall>x\<in>set (hl v c). 0 \<le> fst x \<and> fst x \<notin> set (concat (map labels (filter (\<lambda>c. rlabel c \<noteq> hv) cs')))"
      proof
        fix x assume "x \<in> set (hl v c)"
        then have "fst x \<in> set (labels c)" using set_hl [of v c] by blast
        then show "0 \<le> fst x \<and> fst x \<notin> set (concat (map labels (filter (\<lambda>c. rlabel c \<noteq> hv) cs')))"
          using Cons.prems(3,4) cs by auto
      qed
      from dfs2_frame_placed [OF fr2 pl1 this]
      have "placed s' (cur_pos s) (hl v c)" .
      then have pl: "placed s' (cur_pos s) (concat (map (\<lambda>c. hl (rlabel c) c) (filter (\<lambda>c. rlabel c \<noteq> hv) cs)))"
        using pl2 cp1 hv v cs by (simp add: placed_append rsize_hl [of c v])
      show ?thesis using step fr pl cp1 cp2 hv v cs by simp
    qed
  qed
qed


lemma filter_rlabel_single:
  "distinct (concat (map labels cs)) \<Longrightarrow> c \<in> set cs \<Longrightarrow> filter (\<lambda>x. rlabel x = rlabel c) cs = [c]"
proof (induction cs)
  case Nil
  then show ?case by simp
next
  case (Cons c' cs)
  have no: "filter (\<lambda>x. rlabel x = rlabel c') cs = []"
  proof -
    have "rlabel x \<noteq> rlabel c'" if "x \<in> set cs" for x
    proof -
      have "set (labels c') \<inter> set (labels x) = {}" using Cons.prems(1) that by auto
      then show ?thesis using labels_rlabel [of x] labels_rlabel [of c'] by auto
    qed
    then show ?thesis by (simp add: filter_empty_conv)
  qed
  show ?case
  proof (cases "c = c'")
    case True
    then show ?thesis using no by simp
  next
    case False
    then have cin: "c \<in> set cs" using Cons.prems(2) by simp
    then have "set (labels c') \<inter> set (labels c) = {}" using Cons.prems(1) by auto
    then have "rlabel c \<noteq> rlabel c'"
      using labels_rlabel [of c] labels_rlabel [of c'] by auto
    then show ?thesis using Cons.IH cin Cons.prems(1) by simp
  qed
qed

lemma distinct_concat_disj:
  "distinct (concat (map f cs)) \<Longrightarrow> c \<in> set cs \<Longrightarrow> c' \<in> set cs \<Longrightarrow> c \<noteq> c' \<Longrightarrow>
   set (f c) \<inter> set (f c') = {}"
  by (induction cs) auto

lemma dfs2_frame_upd:
  "0 \<le> u \<Longrightarrow> dfs2_frame [u] s (s\<lparr>head := (head s)[nat u := x], pos := (pos s)[nat u := y], cur_pos := z\<rparr>)"
  by (simp add: dfs2_frame_def same_off_upd)

lemma dfs2_ok:
  "wf_rt a p t \<Longrightarrow> distinct (labels t) \<Longrightarrow> length (labels t) \<le> k \<Longrightarrow> dfs2_pre a p d t s \<Longrightarrow>
   \<exists>s'. dfs2_hld k s (rlabel t) h = Some s' \<and> dfs2_post h t s s'"
proof (induction t arbitrary: s p d k h)
  case (Node u cs)
  from Node.prems(3) obtain k' where k: "k = Suc k'" and k': "length (concat (map labels cs)) \<le> k'"
    by (cases k) auto
  have ur: "0 \<le> u" "u < int (length a)" and flt: "filter (\<lambda>v. v \<noteq> p) (a ! nat u) = map rlabel cs"
    and wfc: "\<forall>c\<in>set cs. wf_rt a u c"
    using Node.prems(1) by auto
  define hv where "hv = heavy_of (Node u cs)"
  have pre: "adj s = a" "lens2 s" and nd: "\<forall>e\<in>set (ctx p d (Node u cs)). node1 s e"
    using Node.prems(4) by (simp_all add: dfs2_pre_def)
  have pu: "parent s ! nat u = p" "heavy_child s ! nat u = hv"
    using nd by (simp_all add: hv_def)
  have ndc: "\<forall>c\<in>set cs. \<forall>e\<in>set (ctx u (d + 1) c). node1 s e" using nd by simp
  have d3: "distinct (concat (map labels cs))" "u \<notin> set (concat (map labels cs))"
    using Node.prems(2) by auto
  have rng: "\<forall>x\<in>set (concat (map labels cs)). 0 \<le> x"
    using wfc wf_rt_range by fastforce
  define s1 where "s1 = s\<lparr>head := (head s)[nat u := h], pos := (pos s)[nat u := cur_pos s],
      cur_pos := cur_pos s + 1\<rparr>"
  have fr1: "dfs2_frame [u] s s1" unfolding s1_def by (rule dfs2_frame_upd [OF ur(1)])
  have lu: "nat u < length (head s)" "nat u < length (pos s)" "nat u < length (heavy_child s)"
    using pre ur by (auto simp: lens2_def lens1_def)
  have s1u: "pos s1 ! nat u = cur_pos s" "head s1 ! nat u = h" "cur_pos s1 = cur_pos s + 1"
    using lu by (simp_all add: s1_def)
  have IH: "\<exists>s'. dfs2_hld k' s0 (rlabel c) h0 = Some s' \<and> dfs2_post h0 c s0 s'"
    if "c \<in> set cs" "dfs2_pre a u (d + 1) c s0" for c s0 h0
  proof (rule Node.IH [OF that(1) _ _ _ that(2)])
    show "wf_rt a u c" using wfc that(1) by blast
    show "distinct (labels c)" using Node.prems(2) that(1) by (auto intro: distinct_concat_elem)
    show "length (labels c) \<le> k'" using k' length_concat_le [OF that(1), of labels] by linarith
  qed
  define H where "H = filter (\<lambda>c. rlabel c = hv) cs"
  define L where "L = filter (\<lambda>c. rlabel c \<noteq> hv) cs"
  have pre1: "dfs2_pre a p d (Node u cs) s1" using dfs2_frame_pre [OF fr1 Node.prems(4)] .
  have heavy: "\<exists>s2. (if hv \<noteq> - 1 then dfs2_hld k' s1 hv h else Some s1) = Some s2 \<and>
      dfs2_frame (concat (map labels H)) s1 s2 \<and> cur_pos s2 = cur_pos s1 + (\<Sum>c\<leftarrow>H. rsize c) \<and>
      placed s2 (cur_pos s1) (concat (map (hl h) H))"
  proof (cases "cs = []")
    case True
    then show ?thesis by (simp add: hv_def H_def)
  next
    case False
    from heavy_of_in [OF this, of u] obtain c where c: "c \<in> set cs" "rlabel c = hv"
      by (auto simp: hv_def)
    have "0 \<le> hv" using c rng labels_rlabel [of c] by auto
    then have ne: "hv \<noteq> - 1" by simp
    have Hc: "H = [c]" using filter_rlabel_single [OF d3(1) c(1)] c(2) by (simp add: H_def)
    have "dfs2_pre a u (d + 1) c s1" using pre1 c(1) by (simp add: dfs2_pre_def)
    from IH [OF c(1) this, of h] obtain s2 where "dfs2_hld k' s1 hv h = Some s2" "dfs2_post h c s1 s2"
      using c(2) by auto
    then show ?thesis using ne Hc by (simp add: dfs2_post_def)
  qed
  then obtain s2 where s2: "(if hv \<noteq> - 1 then dfs2_hld k' s1 hv h else Some s1) = Some s2"
    and fr2: "dfs2_frame (concat (map labels H)) s1 s2"
    and cp2: "cur_pos s2 = cur_pos s1 + (\<Sum>c\<leftarrow>H. rsize c)"
    and pl2: "placed s2 (cur_pos s1) (concat (map (hl h) H))"
    by blast
  have fr12: "dfs2_frame (u # concat (map labels H)) s s2"
    by (rule dfs2_frame_trans [OF fr1 fr2]) auto
  have pre2: "parent s2 ! nat u = p" "heavy_child s2 ! nat u = hv" "adj s2 = a" "lens2 s2"
    using fr12 pu pre dfs2_frame_lens by (auto simp: dfs2_frame_def)
  have n2: "\<forall>c\<in>set cs. \<forall>e\<in>set (ctx u (d + 1) c). node1 s2 e"
    using ndc dfs2_frame_node1 [OF fr12] by simp
  have IH2: "\<And>c s0. c \<in> set cs \<Longrightarrow> rlabel c \<noteq> hv \<Longrightarrow> dfs2_pre a u (d + 1) c s0 \<Longrightarrow>
            \<exists>s'. dfs2_hld k' s0 (rlabel c) (rlabel c) = Some s' \<and> dfs2_post (rlabel c) c s0 s'"
    using IH by blast
  from dfs2_for_ok [OF IH2 flt d3(1) rng ur pre2 n2]
  obtain s' where s': "dfs2_for k' s2 u (a ! nat u) = Some s'"
    and fr3: "dfs2_frame (concat (map labels L)) s2 s'"
    and cp3: "cur_pos s' = cur_pos s2 + (\<Sum>c\<leftarrow>L. rsize c)"
    and pl3: "placed s' (cur_pos s2) (concat (map (\<lambda>c. hl (rlabel c) c) L))"
    unfolding L_def by blast
  have "rd (heavy_child s1) u = Some hv" using lu ur pu by (simp add: s1_def rd_def)
  then have step: "dfs2_hld k s u h = Some s'"
    using k ur lu s2 s' pre2(3,4) pu(2)
    by (auto simp add: s1_def [symmetric] Let_def lens2_def lens1_def split: if_splits)
  have fr: "dfs2_frame (labels (Node u cs)) s s'"
    by (rule dfs2_frame_trans [OF fr12 fr3]) (auto simp: H_def L_def)
  have fr23: "dfs2_frame (concat (map labels H) @ concat (map labels L)) s1 s'"
    by (rule dfs2_frame_trans [OF fr2 fr3]) auto
  have "u \<notin> set (concat (map labels H) @ concat (map labels L))"
    using d3(2) by (auto simp: H_def L_def)
  then have su: "pos s' ! nat u = cur_pos s" "head s' ! nat u = h"
    using fr23 s1u ur(1) by (simp_all add: dfs2_frame_def same_off_def)
  have "\<forall>x\<in>set (concat (map (hl h) H)). 0 \<le> fst x \<and> fst x \<notin> set (concat (map labels L))"
  proof
    fix x assume "x \<in> set (concat (map (hl h) H))"
    then obtain c where c: "c \<in> set H" "x \<in> set (hl h c)" by auto
    then have "fst x \<in> set (labels c)" using set_hl [of h c] by blast
    moreover have "c \<in> set cs" "rlabel c = hv" using c(1) by (auto simp: H_def)
    moreover have "set (labels c) \<inter> set (labels c') = {}" if "c' \<in> set L" for c'
    proof -
      have "c' \<in> set cs" "c' \<noteq> c" using that \<open>rlabel c = hv\<close> by (auto simp: L_def)
      then show ?thesis using distinct_concat_disj [OF d3(1) \<open>c \<in> set cs\<close>, of c'] by blast
    qed
    ultimately show "0 \<le> fst x \<and> fst x \<notin> set (concat (map labels L))"
      using rng by auto
  qed
  from dfs2_frame_placed [OF fr3 pl2 this] have plH: "placed s' (cur_pos s1) (concat (map (hl h) H))" .
  have lenH: "int (length (concat (map (hl h) H))) = (\<Sum>c\<leftarrow>H. rsize c)"
    by (induction H) (simp_all add: rsize_def length_hl)
  have pl: "placed s' (cur_pos s) (hl h (Node u cs))"
    using su plH pl3 cp2 s1u(3) lenH
    by (simp add: placed_Cons placed_append H_def [symmetric] L_def [symmetric] hv_def [symmetric])
  have "(\<Sum>c\<leftarrow>H. rsize c) + (\<Sum>c\<leftarrow>L. rsize c) = (\<Sum>c\<leftarrow>cs. rsize c)"
    unfolding H_def L_def by (rule sum_list_filter_split)
  then have cp: "cur_pos s' = cur_pos s + rsize (Node u cs)"
    using cp3 cp2 s1u(3) by (simp add: rsize_Node)
  show ?case using step fr pl cp by (simp add: dfs2_post_def)
qed

definition valid_tree :: "int list list \<Rightarrow> int \<Rightarrow> bool" where
  "valid_tree a root =
     (case span (length a) a root (- 1) of None \<Rightarrow> False
      | Some t \<Rightarrow> distinct (labels t) \<and> length (labels t) = length a)"

definition is_tree :: "int list list \<Rightarrow> int \<Rightarrow> rtree \<Rightarrow> bool" where
  "is_tree a root t = (wf_rt a (- 1) t \<and> rlabel t = root \<and> distinct (labels t) \<and>
                       set (labels t) = {0..<int (length a)})"

lemma those_map_Some:
  "those (map f xs) = Some ys \<Longrightarrow> length ys = length xs \<and> (\<forall>i<length xs. f (xs ! i) = Some (ys ! i))"
proof (induction xs arbitrary: ys)
  case Nil
  then show ?case by simp
next
  case (Cons x xs)
  then show ?case
    by (auto split: option.splits simp: nth_Cons split: nat.splits)
qed

lemma span_wf: "span k a u p = Some t \<Longrightarrow> wf_rt a p t \<and> rlabel t = u"
proof (induction k arbitrary: u p t)
  case 0
  then show ?case by simp
next
  case (Suc k)
  from Suc.prems obtain ns cs where ns: "rd a u = Some ns"
    and cs: "those (map (\<lambda>v. span k a v u) (filter (\<lambda>v. v \<noteq> p) ns)) = Some cs" and t: "t = Node u cs"
    by (auto split: option.splits)
  from ns have ur: "0 \<le> u" "u < int (length a)" "ns = a ! nat u"
    by (auto simp: rd_def split: if_splits)
  let ?vs = "filter (\<lambda>v. v \<noteq> p) ns"
  from those_map_Some [OF cs] have len: "length cs = length ?vs"
    and each: "\<forall>i<length ?vs. span k a (?vs ! i) u = Some (cs ! i)" by auto
  have "wf_rt a u (cs ! i) \<and> rlabel (cs ! i) = ?vs ! i" if "i < length cs" for i
    using Suc.IH each len that by auto
  then have "map rlabel cs = ?vs" "\<forall>c\<in>set cs. wf_rt a u c"
    using len by (auto simp: list_eq_iff_nth_eq in_set_conv_nth)
  then show ?case using ur t by simp
qed

lemma valid_tree_is_tree:
  assumes "valid_tree a root"
  shows "\<exists>t. is_tree a root t"
proof -
  from assms obtain t where t: "span (length a) a root (- 1) = Some t" "distinct (labels t)"
    "length (labels t) = length a"
    by (auto simp: valid_tree_def split: option.splits)
  from span_wf [OF t(1)] have wf: "wf_rt a (- 1) t" "rlabel t = root" by auto
  have sub: "set (labels t) \<subseteq> {0..<int (length a)}" using wf_rt_range [OF wf(1)] by auto
  have "card (set (labels t)) = card {0..<int (length a)}"
    using t(2,3) by (simp add: distinct_card)
  with sub have "set (labels t) = {0..<int (length a)}"
    by (simp add: card_subset_eq)
  then show ?thesis using wf t(2) by (auto simp: is_tree_def)
qed


lemma ctx_wf: "(px, dx, tx) \<in> set (ctx p d t) \<Longrightarrow> wf_rt a p t \<Longrightarrow> wf_rt a px tx"
proof (induction t arbitrary: p d)
  case (Node u cs)
  show ?case
  proof (cases "(px, dx, tx) = (p, d, Node u cs)")
    case True
    then show ?thesis using Node.prems(2) by simp
  next
    case False
    then obtain k where k: "k \<in> set cs" "(px, dx, tx) \<in> set (ctx u (d + 1) k)"
      using Node.prems(1) by auto
    have "wf_rt a u k" using Node.prems(2) k(1) by simp
    from Node.IH [OF k this] show ?thesis .
  qed
qed

lemma ctx_kids:
  "(px, dx, Node x cs) \<in> set (ctx p d t) \<Longrightarrow> c \<in> set cs \<Longrightarrow> (x, dx + 1, c) \<in> set (ctx p d t)"
proof (induction t arbitrary: p d)
  case (Node u ks)
  show ?case
  proof (cases "(px, dx, Node x cs) = (p, d, Node u ks)")
    case True
    then show ?thesis using Node.prems(2) ctx_hd [of u "d + 1" c] by auto
  next
    case False
    then obtain k where k: "k \<in> set ks" "(px, dx, Node x cs) \<in> set (ctx u (d + 1) k)"
      using Node.prems(1) by auto
    from Node.IH [OF k(1) k(2) Node.prems(2)] k(1) show ?thesis by auto
  qed
qed

lemma ctx_up:
  "(px, dx, tx) \<in> set (ctx p d t) \<Longrightarrow>
   (px, dx, tx) = (p, d, t) \<or> (\<exists>p' cs. (p', dx - 1, Node px cs) \<in> set (ctx p d t) \<and> tx \<in> set cs)"
proof (induction t arbitrary: p d)
  case (Node u ks)
  show ?case
  proof (cases "(px, dx, tx) = (p, d, Node u ks)")
    case True
    then show ?thesis by simp
  next
    case False
    then obtain k where k: "k \<in> set ks" "(px, dx, tx) \<in> set (ctx u (d + 1) k)"
      using Node.prems(1) by auto
    from Node.IH [OF k] show ?thesis
    proof
      assume "(px, dx, tx) = (u, d + 1, k)"
      then have "(p, dx - 1, Node px ks) \<in> set (ctx p d (Node u ks)) \<and> tx \<in> set ks"
        using k(1) by simp
      then show ?thesis by blast
    next
      assume "\<exists>p' cs. (p', dx - 1, Node px cs) \<in> set (ctx u (d + 1) k) \<and> tx \<in> set cs"
      then show ?thesis using k(1) by auto
    qed
  qed
qed

lemma ctx_labels_map: "map (\<lambda>e. rlabel (snd (snd e))) (ctx p d t) = labels t"
proof (induction t arbitrary: p d)
  case (Node u cs)
  have "map (\<lambda>c. map (\<lambda>e. rlabel (snd (snd e))) (ctx u (d + 1) c)) cs = map labels cs"
    by (rule map_cong [OF refl]) (simp add: Node.IH)
  then have "concat (map (\<lambda>c. map (\<lambda>e. rlabel (snd (snd e))) (ctx u (d + 1) c)) cs) = concat (map labels cs)"
    by (rule arg_cong)
  then show ?case by (simp add: map_concat comp_def)
qed

lemma ctx_entry: "x \<in> set (labels t) \<Longrightarrow> \<exists>px dx tx. (px, dx, tx) \<in> set (ctx p d t) \<and> rlabel tx = x"
proof -
  assume "x \<in> set (labels t)"
  then have "x \<in> set (map (\<lambda>e. rlabel (snd (snd e))) (ctx p d t))" by (simp add: ctx_labels_map)
  then obtain e where e: "e \<in> set (ctx p d t)" "rlabel (snd (snd e)) = x" by auto
  then have "(fst e, fst (snd e), snd (snd e)) \<in> set (ctx p d t)" by simp
  with e(2) show ?thesis by blast
qed

lemma ctx_depth: "(px, dx, tx) \<in> set (ctx p d t) \<Longrightarrow> d \<le> dx"
proof (induction t arbitrary: p d)
  case (Node u cs)
  show ?case
  proof (cases "(px, dx, tx) = (p, d, Node u cs)")
    case True
    then show ?thesis by simp
  next
    case False
    then obtain k where k: "k \<in> set cs" "(px, dx, tx) \<in> set (ctx u (d + 1) k)"
      using Node.prems(1) by auto
    from Node.IH [OF k] show ?thesis by simp
  qed
qed

lemma ctx_distinct: "(px, dx, tx) \<in> set (ctx p d t) \<Longrightarrow> distinct (labels t) \<Longrightarrow> distinct (labels tx)"
proof (induction t arbitrary: p d)
  case (Node u cs)
  show ?case
  proof (cases "(px, dx, tx) = (p, d, Node u cs)")
    case True
    then show ?thesis using Node.prems(2) by simp
  next
    case False
    then obtain k where k: "k \<in> set cs" "(px, dx, tx) \<in> set (ctx u (d + 1) k)"
      using Node.prems(1) by auto
    have "distinct (labels k)" using Node.prems(2) k(1) by (auto intro: distinct_concat_elem)
    from Node.IH [OF k this] show ?thesis .
  qed
qed

lemma ctx_unique:
  "distinct (labels t) \<Longrightarrow> e \<in> set (ctx p d t) \<Longrightarrow> e' \<in> set (ctx p d t) \<Longrightarrow>
   rlabel (snd (snd e)) = rlabel (snd (snd e')) \<Longrightarrow> e = e'"
proof -
  assume d: "distinct (labels t)" and e: "e \<in> set (ctx p d t)" "e' \<in> set (ctx p d t)"
    and eq: "rlabel (snd (snd e)) = rlabel (snd (snd e'))"
  have "inj_on (\<lambda>e. rlabel (snd (snd e))) (set (ctx p d t))"
    using d distinct_map [of "\<lambda>e. rlabel (snd (snd e))" "ctx p d t"] by (simp add: ctx_labels_map)
  then show ?thesis using e eq by (auto dest: inj_onD)
qed

lemma concat_map_split:
  "c \<in> set cs \<Longrightarrow> \<exists>A B. concat (map f cs) = A @ f c @ B"
proof -
  assume "c \<in> set cs"
  then obtain xs ys where "cs = xs @ c # ys" by (auto dest: split_list)
  then have "concat (map f cs) = concat (map f xs) @ f c @ concat (map f ys)" by simp
  then show ?thesis by blast
qed

lemma hl_hd: "\<exists>r. hl h t = (rlabel t, h) # r"
  by (cases t) simp

lemma hl_kid:
  assumes "c \<in> set cs"
  shows "\<exists>A B. hl h (Node u cs) = (u, h) # A @ hl (if rlabel c = heavy_of (Node u cs) then h else rlabel c) c @ B"
proof (cases "rlabel c = heavy_of (Node u cs)")
  case True
  then have "c \<in> set (filter (\<lambda>c. rlabel c = heavy_of (Node u cs)) cs)" using assms by simp
  from concat_map_split [OF this, of "hl h"] obtain A B where
    "concat (map (hl h) (filter (\<lambda>c. rlabel c = heavy_of (Node u cs)) cs)) = A @ hl h c @ B" by blast
  then have "hl h (Node u cs) = (u, h) # A @ hl h c @
      (B @ concat (map (\<lambda>c. hl (rlabel c) c) (filter (\<lambda>c. rlabel c \<noteq> heavy_of (Node u cs)) cs)))"
    by simp
  then show ?thesis using True by auto
next
  case False
  then have "c \<in> set (filter (\<lambda>c. rlabel c \<noteq> heavy_of (Node u cs)) cs)" using assms by simp
  from concat_map_split [OF this, of "\<lambda>c. hl (rlabel c) c"] obtain A B where
    "concat (map (\<lambda>c. hl (rlabel c) c) (filter (\<lambda>c. rlabel c \<noteq> heavy_of (Node u cs)) cs)) = A @ hl (rlabel c) c @ B"
    by blast
  then have "hl h (Node u cs) = (u, h) # (concat (map (hl h) (filter (\<lambda>c. rlabel c = heavy_of (Node u cs)) cs)) @ A)
      @ hl (rlabel c) c @ B"
    by simp
  then show ?thesis using False
    by (intro exI [of _ "concat (map (hl h) (filter (\<lambda>c. rlabel c = heavy_of (Node u cs)) cs)) @ A"] exI [of _ B]) simp
qed

lemma hl_sub:
  "(px, dx, tx) \<in> set (ctx p d t) \<Longrightarrow> \<exists>pre suf h'. hl h t = pre @ hl h' tx @ suf"
proof (induction t arbitrary: p d h)
  case (Node u cs)
  show ?case
  proof (cases "(px, dx, tx) = (p, d, Node u cs)")
    case True
    then have "hl h (Node u cs) = [] @ hl h tx @ []" by simp
    then show ?thesis by blast
  next
    case False
    then obtain k where k: "k \<in> set cs" "(px, dx, tx) \<in> set (ctx u (d + 1) k)"
      using Node.prems(1) by auto
    from hl_kid [OF k(1), of h u] obtain A B hk where
      A: "hl h (Node u cs) = (u, h) # A @ hl hk k @ B" by blast
    from Node.IH [OF k, of hk] obtain pre suf h' where "hl hk k = pre @ hl h' tx @ suf" by blast
    with A have "hl h (Node u cs) = ((u, h) # A @ pre) @ hl h' tx @ (suf @ B)" by simp
    then show ?thesis by blast
  qed
qed

lemma rd_SomeD: "rd xs i = Some x \<Longrightarrow> 0 \<le> i \<and> i < int (length xs) \<and> x = xs ! nat i"
  by (auto simp: rd_def split: if_splits)

lemma wr_SomeD: "wr xs i v = Some ys \<Longrightarrow> 0 \<le> i \<and> i < int (length xs) \<and> ys = xs[nat i := v]"
  by (auto simp: wr_def split: if_splits)

definition edges_in :: "int list list \<Rightarrow> (int \<times> int) set \<Rightarrow> bool" where
  "edges_in a E = (\<forall>x. 0 \<le> x \<longrightarrow> x < int (length a) \<longrightarrow>
       set (a ! nat x) = {y. (x, y) \<in> E \<or> (y, x) \<in> E} \<and> (\<forall>y\<in>set (a ! nat x). 0 \<le> y \<and> y < int (length a)))"

lemma add_edge_adj:
  assumes "add_edge s u v = Some s'" "edges_in (adj s) E"
  shows "edges_in (adj s') (insert (u, v) E)" "length (adj s') = length (adj s)"
    "\<exists>a'. s' = s\<lparr>adj := a'\<rparr>"
proof -
  from assms(1) obtain au a1 av a2 where au: "rd (adj s) u = Some au"
      and a1: "wr (adj s) u (au @ [v]) = Some a1" and av: "rd a1 v = Some av"
      and a2: "wr a1 v (av @ [u]) = Some a2" and s': "s' = s\<lparr>adj := a2\<rparr>"
    by (auto simp add: add_edge_def bind_eq_Some_conv)
  from rd_SomeD [OF au] have ur: "0 \<le> u" "u < int (length (adj s))" and au_eq: "au = adj s ! nat u"
    by simp_all
  from wr_SomeD [OF a1] have a1_eq: "a1 = (adj s)[nat u := adj s ! nat u @ [v]]" using au_eq by simp
  from rd_SomeD [OF av] have vr: "0 \<le> v" "v < int (length a1)" and av_eq: "av = a1 ! nat v"
    by simp_all
  from wr_SomeD [OF a2] have a2_eq: "a2 = a1[nat v := a1 ! nat v @ [u]]" using av_eq
    by simp
  have len: "length a2 = length (adj s)" by (simp add: a2_eq a1_eq)
  have vr': "v < int (length (adj s))" using vr by (simp add: a1_eq)
  have nth: "a2 ! nat x = adj s ! nat x @ (if x = u then [v] else []) @ (if x = v then [u] else [])"
    if "0 \<le> x" "x < int (length (adj s))" for x
  proof -
    have lx: "nat x < length (adj s)" "nat u < length (adj s)" "nat v < length (adj s)"
      using that ur vr' vr by auto
    have "(nat x = nat u) = (x = u)" "(nat x = nat v) = (x = v)" "(nat u = nat v) = (u = v)"
      using that ur vr by (simp_all add: eq_nat_nat_iff)
    then show ?thesis using lx
      by (cases "x = u"; cases "x = v") (simp_all add: a2_eq a1_eq nth_list_update)
  qed
  show "edges_in (adj s') (insert (u, v) E)"
    unfolding edges_in_def
  proof (intro allI impI)
    fix x assume x: "0 \<le> x" "x < int (length (adj s'))"
    then have x': "x < int (length (adj s))" using len s' by simp
    note o = assms(2) [unfolded edges_in_def, rule_format, OF x(1) x']
    have old: "set (adj s ! nat x) = {y. (x, y) \<in> E \<or> (y, x) \<in> E}"
      "\<forall>y\<in>set (adj s ! nat x). 0 \<le> y \<and> y < int (length (adj s))"
      using o by blast+
    show "set (adj s' ! nat x) = {y. (x, y) \<in> insert (u, v) E \<or> (y, x) \<in> insert (u, v) E} \<and>
        (\<forall>y\<in>set (adj s' ! nat x). 0 \<le> y \<and> y < int (length (adj s')))"
    proof -
      have "adj s' ! nat x = adj s ! nat x @ (if x = u then [v] else []) @ (if x = v then [u] else [])"
        using nth [OF x(1) x'] s' by simp
      moreover have "length (adj s') = length (adj s)" using len s' by simp
      ultimately show ?thesis using old ur vr' vr(1)
        by (cases "x = u"; cases "x = v") auto
    qed
  qed
  show "length (adj s') = length (adj s)" using s' len by simp
  show "\<exists>a'. s' = s\<lparr>adj := a'\<rparr>" using s' by blast
qed

lemma add_edges_adj:
  "add_edges s es = Some s' \<Longrightarrow> edges_in (adj s) E \<Longrightarrow>
   edges_in (adj s') (set es \<union> E) \<and> length (adj s') = length (adj s) \<and> (\<exists>a'. s' = s\<lparr>adj := a'\<rparr>)"
proof (induction es arbitrary: s E)
  case Nil
  then have "s' = s" by simp
  then have "s' = s\<lparr>adj := adj s\<rparr>" by simp
  then have "\<exists>a'. s' = s\<lparr>adj := a'\<rparr>" by (rule exI)
  then show ?case using Nil \<open>s' = s\<close> by simp
next
  case (Cons e es)
  obtain u v where e: "e = (u, v)" by (cases e) auto
  from Cons.prems(1) e obtain s1 where s1: "add_edge s u v = Some s1" "add_edges s1 es = Some s'"
    by (auto simp: bind_eq_Some_conv)
  note A = add_edge_adj [OF s1(1) Cons.prems(2)]
  from Cons.IH [OF s1(2) A(1)] have B: "edges_in (adj s') (set es \<union> insert (u, v) E)"
    "length (adj s') = length (adj s1)" and B3: "\<exists>a'. s' = s1\<lparr>adj := a'\<rparr>" by auto
  from A(3) B3 obtain a1 a' where "s1 = s\<lparr>adj := a1\<rparr>" "s' = s1\<lparr>adj := a'\<rparr>" by blast
  then have "s' = s\<lparr>adj := a'\<rparr>" by simp
  then have C: "\<exists>a'. s' = s\<lparr>adj := a'\<rparr>" by blast
  have "set (e # es) \<union> E = set es \<union> insert (u, v) E" using e by auto
  then show ?case using A(2) B C by simp
qed


definition fresh :: "int \<Rightarrow> HLD \<Rightarrow> bool" where
  "fresh n s = (num_nodes s = n \<and> length (adj s) = nat n \<and> parent s = replicate (nat n) (- 1) \<and>
     depth s = replicate (nat n) 0 \<and> subtree_size s = replicate (nat n) 1 \<and>
     heavy_child s = replicate (nat n) (- 1) \<and> head s = replicate (nat n) 0 \<and>
     pos s = replicate (nat n) 0 \<and> cur_pos s = 0 \<and> seg_tree s = SegmentTree_new n)"

definition decomposed :: "HLD \<Rightarrow> int \<Rightarrow> rtree \<Rightarrow> bool" where
  "decomposed s root T = (is_tree (adj s) root T \<and> lens2 s \<and> (\<forall>e\<in>set (ctx (- 1) 0 T). node1 s e) \<and>
     placed s 0 (hl root T))"

lemma HLD_new_edges: "edges_in (adj (HLD_new n vals)) {}"
  by (simp add: edges_in_def HLD_new_def)

lemma add_edges_fresh:
  assumes "add_edges (HLD_new n vals) es = Some s0"
  shows "fresh n s0" "node_values s0 = vals" "edges_in (adj s0) (set es)"
proof -
  from add_edges_adj [OF assms HLD_new_edges]
  have e: "edges_in (adj s0) (set es \<union> {})" and l: "length (adj s0) = length (adj (HLD_new n vals))"
    and x: "\<exists>a'. s0 = (HLD_new n vals)\<lparr>adj := a'\<rparr>" by blast+
  from x obtain a' where a': "s0 = (HLD_new n vals)\<lparr>adj := a'\<rparr>" by blast
  show "edges_in (adj s0) (set es)" using e by simp
  show "node_values s0 = vals" by (subst a') (simp add: HLD_new_def)
  have "length (adj s0) = nat n" using l by (simp add: HLD_new_def)
  then show "fresh n s0" unfolding fresh_def by (subst (1 3 4 5 6 7 8 9 10) a') (simp add: HLD_new_def)
qed

lemma build_dfs:
  assumes fr: "fresh n s0" and T: "is_tree (adj s0) root T" and k: "nat n \<le> k"
  shows "\<exists>s1 s2. dfs1_size_depth_parent k s0 root (- 1) 0 = Some s1 \<and> dfs2_hld k s1 root root = Some s2 \<and>
     decomposed s2 root T \<and> cur_pos s2 = n \<and> num_nodes s2 = n \<and> node_values s2 = node_values s0 \<and>
     seg_tree s2 = seg_tree s0 \<and> adj s2 = adj s0"
proof -
  let ?a = "adj s0"
  have wf: "wf_rt ?a (- 1) T" and rl: "rlabel T = root" and dl: "distinct (labels T)"
    and sl: "set (labels T) = {0..<int (length ?a)}"
    using T by (simp_all add: is_tree_def)
  have la: "length ?a = nat n" using fr by (simp add: fresh_def)
  have "card (set (labels T)) = length ?a" using sl by simp
  then have len: "length (labels T) = nat n" using dl la by (simp add: distinct_card)
  then have lk: "length (labels T) \<le> k" using k by simp
  have rng: "\<forall>x\<in>set (labels T). 0 \<le> x \<and> nat x < nat n" using sl la by auto
  have pre1: "dfs1_pre ?a (labels T) s0"
    using fr rng by (auto simp: dfs1_pre_def lens1_def fresh_def)
  from dfs1_ok [OF wf dl lk pre1, of 0] rl
  obtain s1 where s1: "dfs1_size_depth_parent k s0 root (- 1) 0 = Some s1"
    and fr1: "dfs1_frame (labels T) s0 s1" and n1: "\<forall>e\<in>set (ctx (- 1) 0 T). node1 s1 e"
    by auto
  have l1: "lens1 s1" "adj s1 = ?a"
    using dfs1_frame_lens [OF fr1] dfs1_frame_adj [OF fr1] fr by (simp_all add: lens1_def fresh_def)
  have o1: "head s1 = head s0" "pos s1 = pos s0" "cur_pos s1 = 0" "num_nodes s1 = n"
    "node_values s1 = node_values s0" "seg_tree s1 = seg_tree s0"
    using fr1 fr by (simp_all add: dfs1_frame_def fresh_def)
  have pre2: "dfs2_pre ?a (- 1) 0 T s1"
    using l1 o1 n1 fr by (simp add: dfs2_pre_def lens2_def fresh_def)
  from dfs2_ok [OF wf dl lk pre2, of root] rl
  obtain s2 where s2: "dfs2_hld k s1 root root = Some s2" and post: "dfs2_post root T s1 s2"
    by auto
  have fr2: "dfs2_frame (labels T) s1 s2" and cp: "cur_pos s2 = cur_pos s1 + rsize T"
    and pl: "placed s2 (cur_pos s1) (hl root T)"
    using post by (simp_all add: dfs2_post_def)
  have l2: "lens2 s2" using dfs2_frame_lens [OF fr2] l1 o1 fr by (simp add: lens2_def fresh_def)
  have a2: "adj s2 = ?a" using fr2 l1 by (simp add: dfs2_frame_def)
  have n2: "\<forall>e\<in>set (ctx (- 1) 0 T). node1 s2 e" using n1 dfs2_frame_node1 [OF fr2] by blast
  have "rsize T = n" using len rng rl labels_rlabel [of T] by (auto simp: rsize_def)
  then have c2: "cur_pos s2 = n" using cp o1 by simp
  have o2: "num_nodes s2 = n" "node_values s2 = node_values s0" "seg_tree s2 = seg_tree s0"
    using fr2 o1 by (simp_all add: dfs2_frame_def)
  have "decomposed s2 root T" using T l2 a2 n2 pl o1 by (simp add: decomposed_def)
  then show ?thesis using s1 s2 c2 o2 a2 by blast
qed

lemma decomposed_entry:
  assumes "decomposed s root T" "0 \<le> x" "x < int (length (adj s))"
  shows "\<exists>px dx cs. (px, dx, Node x cs) \<in> set (ctx (- 1) 0 T)"
proof -
  have "x \<in> set (labels T)" using assms by (simp add: decomposed_def is_tree_def)
  from ctx_entry [OF this, of "- 1" 0] obtain px dx tx where
    e: "(px, dx, tx) \<in> set (ctx (- 1) 0 T)" "rlabel tx = x" by blast
  then show ?thesis by (cases tx) auto
qed

lemma decomposed_node:
  assumes "decomposed s root T" "(px, dx, Node x cs) \<in> set (ctx (- 1) 0 T)"
  shows "parent s ! nat x = px" "depth s ! nat x = dx" "subtree_size s ! nat x = rsize (Node x cs)"
    "heavy_child s ! nat x = heavy_of (Node x cs)"
    "filter (\<lambda>v. v \<noteq> px) (adj s ! nat x) = map rlabel cs"
    "0 \<le> x" "x < int (length (adj s))" "0 \<le> dx"
    "distinct (concat (map labels cs))" "x \<notin> set (concat (map labels cs))"
proof -
  have n: "node1 s (px, dx, Node x cs)" using assms by (auto simp: decomposed_def)
  then show "parent s ! nat x = px" "depth s ! nat x = dx" "subtree_size s ! nat x = rsize (Node x cs)"
    "heavy_child s ! nat x = heavy_of (Node x cs)" by simp_all
  have "wf_rt (adj s) (- 1) T" using assms(1) by (simp add: decomposed_def is_tree_def)
  from ctx_wf [OF assms(2) this]
  show "filter (\<lambda>v. v \<noteq> px) (adj s ! nat x) = map rlabel cs" "0 \<le> x" "x < int (length (adj s))"
    by simp_all
  show "0 \<le> dx" using ctx_depth [OF assms(2)] .
  have "distinct (labels T)" using assms(1) by (simp add: decomposed_def is_tree_def)
  from ctx_distinct [OF assms(2) this]
  show "distinct (concat (map labels cs))" "x \<notin> set (concat (map labels cs))" by simp_all
qed

lemma decomposed_kid:
  assumes D: "decomposed s root T" and e: "(px, dx, Node x cs) \<in> set (ctx (- 1) 0 T)" and c: "c \<in> set cs"
  shows "parent s ! nat (rlabel c) = x" "depth s ! nat (rlabel c) = dx + 1"
    "subtree_size s ! nat (rlabel c) = rsize c"
    "rlabel c = heavy_of (Node x cs) \<Longrightarrow>
       pos s ! nat (rlabel c) = pos s ! nat x + 1 \<and> head s ! nat (rlabel c) = head s ! nat x"
    "rlabel c \<noteq> heavy_of (Node x cs) \<Longrightarrow> head s ! nat (rlabel c) = rlabel c"
proof -
  from ctx_kids [OF e c] have ec: "(x, dx + 1, c) \<in> set (ctx (- 1) 0 T)" .
  then have "node1 s (x, dx + 1, c)" using D by (auto simp: decomposed_def)
  then show "parent s ! nat (rlabel c) = x" "depth s ! nat (rlabel c) = dx + 1"
    "subtree_size s ! nat (rlabel c) = rsize c" by simp_all
  have pl: "placed s 0 (hl root T)" using D by (simp add: decomposed_def)
  from hl_sub [OF e, of root] obtain pre suf h' where
    sub: "hl root T = pre @ hl h' (Node x cs) @ suf" by blast
  have plx: "placed s (int (length pre)) (hl h' (Node x cs))"
    using pl unfolding sub placed_append by (simp del: hl.simps)
  note dd = decomposed_node(9) [OF D e]
  {
    assume hv: "rlabel c = heavy_of (Node x cs)"
    have "filter (\<lambda>k. rlabel k = heavy_of (Node x cs)) cs = [c]"
      using filter_rlabel_single [OF dd c] hv by simp
    then have "hl h' (Node x cs) = (x, h') # hl h' c @
        concat (map (\<lambda>c. hl (rlabel c) c) (filter (\<lambda>c. rlabel c \<noteq> heavy_of (Node x cs)) cs))"
      by simp
    moreover obtain r where "hl h' c = (rlabel c, h') # r" using hl_hd by blast
    ultimately show "pos s ! nat (rlabel c) = pos s ! nat x + 1 \<and> head s ! nat (rlabel c) = head s ! nat x"
      using plx by (simp add: placed_Cons)
  }
  {
    assume hv: "rlabel c \<noteq> heavy_of (Node x cs)"
    from hl_kid [OF c, of h' x] hv obtain A B where
      "hl h' (Node x cs) = (x, h') # A @ hl (rlabel c) c @ B" by auto
    moreover obtain r where "hl (rlabel c) c = (rlabel c, rlabel c) # r" using hl_hd by blast
    ultimately show "head s ! nat (rlabel c) = rlabel c"
      using plx by (simp add: placed_Cons placed_append)
  }
qed

lemma decomposed_root:
  assumes D: "decomposed s root T"
  shows "(- 1, 0, T) \<in> set (ctx (- 1) 0 T)" "rlabel T = root" "parent s ! nat root = - 1"
    "depth s ! nat root = 0" "head s ! nat root = root" "pos s ! nat root = 0"
    "0 \<le> root" "root < int (length (adj s))"
proof -
  show e: "(- 1, 0, T) \<in> set (ctx (- 1) 0 T)" by (rule ctx_hd)
  show r: "rlabel T = root" using D by (simp add: decomposed_def is_tree_def)
  obtain cs where T: "T = Node root cs" using r by (cases T) auto
  have "(- 1, 0, Node root cs) \<in> set (ctx (- 1) 0 T)"
    by (simp add: T [symmetric] ctx_hd del: ctx.simps)
  from decomposed_node [OF D this]
  show "parent s ! nat root = - 1" "depth s ! nat root = 0" "0 \<le> root" "root < int (length (adj s))"
    by simp_all
  have "placed s 0 (hl root T)" using D by (simp add: decomposed_def)
  then show "head s ! nat root = root" "pos s ! nat root = 0"
    by (simp_all add: T placed_Cons)
qed

lemma decomposed_up:
  assumes D: "decomposed s root T" and e: "(px, dx, Node x cs) \<in> set (ctx (- 1) 0 T)" and x: "x \<noteq> root"
  shows "\<exists>p' ks. (p', dx - 1, Node px ks) \<in> set (ctx (- 1) 0 T) \<and> Node x cs \<in> set ks"
proof -
  from ctx_up [OF e] show ?thesis
  proof
    assume "(px, dx, Node x cs) = (- 1, 0, T)"
    then have "rlabel T = x" by auto
    then show ?thesis using x decomposed_root(2) [OF D] by simp
  qed
qed

fun updates :: "HLD \<Rightarrow> (int \<times> cint) list \<Rightarrow> HLD option" where
  "updates s [] = Some s"
| "updates s ((u, x) # ups) = do { s1 \<leftarrow> update_node_value s u x; updates s1 ups }"

definition built :: "int \<Rightarrow> cint list \<Rightarrow> (int \<times> int) list \<Rightarrow> int \<Rightarrow> nat \<Rightarrow> (int \<times> cint) list \<Rightarrow> HLD \<Rightarrow> bool" where
  "built n vals es root k ups s =
     (int (length vals) = n \<and> nat n \<le> k \<and>
      (case add_edges (HLD_new n vals) es of None \<Rightarrow> False
       | Some s0 \<Rightarrow> valid_tree (adj s0) root \<and> (build k s0 root \<bind> (\<lambda>s1. updates s1 ups)) = Some s))"

definition same_topology :: "HLD \<Rightarrow> HLD \<Rightarrow> bool" where
  "same_topology s s' = (num_nodes s' = num_nodes s \<and> adj s' = adj s \<and> parent s' = parent s \<and>
     depth s' = depth s \<and> subtree_size s' = subtree_size s \<and> heavy_child s' = heavy_child s \<and>
     head s' = head s \<and> pos s' = pos s \<and> cur_pos s' = cur_pos s)"

lemma same_topology_refl [simp]: "same_topology s s"
  by (simp add: same_topology_def)

lemma same_topology_trans: "same_topology s s1 \<Longrightarrow> same_topology s1 s2 \<Longrightarrow> same_topology s s2"
  by (simp add: same_topology_def)

lemma same_topology_decomposed: "same_topology s s' \<Longrightarrow> decomposed s root T \<Longrightarrow> decomposed s' root T"
proof -
  assume t: "same_topology s s'" and d: "decomposed s root T"
  have "node1 s' e" if "node1 s e" for e using that t by (cases e) (simp add: same_topology_def)
  moreover have "placed s' 0 (hl root T)" using d t by (simp add: decomposed_def placed_def same_topology_def)
  ultimately show ?thesis using d t by (simp add: decomposed_def same_topology_def lens2_def lens1_def)
qed

lemma update_node_value_topology: "update_node_value s u x = Some s' \<Longrightarrow> same_topology s s'"
  by (auto simp: update_node_value_def bind_eq_Some_conv same_topology_def)

lemma updates_topology: "updates s ups = Some s' \<Longrightarrow> same_topology s s'"
proof (induction ups arbitrary: s)
  case Nil
  then show ?case by simp
next
  case (Cons a ups)
  obtain u x where a: "a = (u, x)" by (cases a) auto
  from Cons.prems a obtain s1 where "update_node_value s u x = Some s1" "updates s1 ups = Some s'"
    by (auto simp: bind_eq_Some_conv)
  then show ?case using Cons.IH update_node_value_topology same_topology_trans by blast
qed

lemma build_topology:
  assumes fr: "fresh n s0" and T: "is_tree (adj s0) root T" and k: "nat n \<le> k"
    and b: "build k s0 root = Some s"
  shows "decomposed s root T" "num_nodes s = n" "adj s = adj s0" "cur_pos s = n"
proof -
  from build_dfs [OF fr T k] obtain s1 s2 where
    s1: "dfs1_size_depth_parent k s0 root (- 1) 0 = Some s1" and s2: "dfs2_hld k s1 root root = Some s2"
    and d: "decomposed s2 root T" and o: "cur_pos s2 = n" "num_nodes s2 = n" "adj s2 = adj s0"
    by blast
  from b s1 s2 obtain st where "s = s2\<lparr>seg_tree := st\<rparr>"
    by (auto simp: build_def bind_eq_Some_conv)
  then have t: "same_topology s2 s" by (simp add: same_topology_def)
  show "decomposed s root T" using same_topology_decomposed [OF t d] .
  show "num_nodes s = n" "adj s = adj s0" "cur_pos s = n" using t o by (simp_all add: same_topology_def)
qed

lemma built_decomposed:
  assumes "built n vals es root k ups s"
  shows "\<exists>T. decomposed s root T \<and> num_nodes s = n \<and> length (adj s) = nat n \<and> edges_in (adj s) (set es)"
proof -
  from assms obtain s0 s1 where s0: "add_edges (HLD_new n vals) es = Some s0"
    and v: "valid_tree (adj s0) root" and k: "nat n \<le> k"
    and b: "build k s0 root = Some s1" and u: "updates s1 ups = Some s"
    by (auto simp: built_def bind_eq_Some_conv split: option.splits)
  note f = add_edges_fresh [OF s0]
  from valid_tree_is_tree [OF v] obtain T where T: "is_tree (adj s0) root T" by blast
  note B = build_topology [OF f(1) T k b]
  note t = updates_topology [OF u]
  have "decomposed s root T" using same_topology_decomposed [OF t B(1)] .
  moreover have "num_nodes s = n" "adj s = adj s0" using t B by (simp_all add: same_topology_def)
  moreover have "length (adj s0) = nat n" using f(1) by (simp add: fresh_def)
  ultimately show ?thesis using f(3) by auto
qed

definition children :: "HLD \<Rightarrow> int \<Rightarrow> int list" where
  "children s u = filter (\<lambda>v. v \<noteq> parent s ! nat u) (adj s ! nat u)"

lemma heavy_fold_first_max:
  "\<exists>m hh. fold heavy_step cs (mx, h) = (m, hh) \<and> mx \<le> m \<and> (\<forall>j<length cs. rsize (cs ! j) \<le> m) \<and>
     ((m = mx \<and> hh = h) \<or>
      (\<exists>i<length cs. hh = rlabel (cs ! i) \<and> rsize (cs ! i) = m \<and> mx < m \<and> (\<forall>j<i. rsize (cs ! j) < m)))"
proof (induction cs rule: rev_induct)
  case Nil
  then show ?case by simp
next
  case (snoc c cs)
  then obtain m hh where f: "fold heavy_step cs (mx, h) = (m, hh)" and le: "mx \<le> m"
    and all: "\<forall>j<length cs. rsize (cs ! j) \<le> m"
    and alt: "(m = mx \<and> hh = h) \<or>
      (\<exists>i<length cs. hh = rlabel (cs ! i) \<and> rsize (cs ! i) = m \<and> mx < m \<and> (\<forall>j<i. rsize (cs ! j) < m))"
    by blast
  show ?case
  proof (cases "rsize c > m")
    case True
    have f': "fold heavy_step (cs @ [c]) (mx, h) = (rsize c, rlabel c)" using f True by simp
    have a: "\<forall>j<length (cs @ [c]). rsize ((cs @ [c]) ! j) \<le> rsize c"
      using all True by (auto simp: nth_append less_Suc_eq)
    have b: "\<forall>j<length cs. rsize ((cs @ [c]) ! j) < rsize c"
      using all True by (auto simp: nth_append)
    have "length cs < length (cs @ [c]) \<and> rlabel c = rlabel ((cs @ [c]) ! length cs) \<and>
        rsize ((cs @ [c]) ! length cs) = rsize c \<and> mx < rsize c \<and> (\<forall>j<length cs. rsize ((cs @ [c]) ! j) < rsize c)"
      using b le True by simp
    then have "\<exists>i<length (cs @ [c]). rlabel c = rlabel ((cs @ [c]) ! i) \<and> rsize ((cs @ [c]) ! i) = rsize c \<and>
        mx < rsize c \<and> (\<forall>j<i. rsize ((cs @ [c]) ! j) < rsize c)"
      by blast
    then show ?thesis using f' a le True by auto
  next
    case False
    have f': "fold heavy_step (cs @ [c]) (mx, h) = (m, hh)" using f False by simp
    have a: "\<forall>j<length (cs @ [c]). rsize ((cs @ [c]) ! j) \<le> m"
      using all False by (auto simp: nth_append less_Suc_eq)
    from alt have "(m = mx \<and> hh = h) \<or>
      (\<exists>i<length (cs @ [c]). hh = rlabel ((cs @ [c]) ! i) \<and> rsize ((cs @ [c]) ! i) = m \<and> mx < m \<and>
         (\<forall>j<i. rsize ((cs @ [c]) ! j) < m))"
    proof
      assume "m = mx \<and> hh = h"
      then show ?thesis by simp
    next
      assume "\<exists>i<length cs. hh = rlabel (cs ! i) \<and> rsize (cs ! i) = m \<and> mx < m \<and> (\<forall>j<i. rsize (cs ! j) < m)"
      then obtain i where i: "i < length cs" "hh = rlabel (cs ! i)" "rsize (cs ! i) = m" "mx < m"
        "\<forall>j<i. rsize (cs ! j) < m" by blast
      then have "i < length (cs @ [c]) \<and> hh = rlabel ((cs @ [c]) ! i) \<and> rsize ((cs @ [c]) ! i) = m \<and> mx < m \<and>
         (\<forall>j<i. rsize ((cs @ [c]) ! j) < m)"
        by (auto simp: nth_append)
      then show ?thesis by blast
    qed
    then show ?thesis using f' a le by blast
  qed
qed

lemma heavy_of_first_max:
  assumes "cs \<noteq> []"
  shows "\<exists>i<length cs. heavy_of (Node u cs) = rlabel (cs ! i) \<and> (\<forall>j<length cs. rsize (cs ! j) \<le> rsize (cs ! i)) \<and>
     (\<forall>j<i. rsize (cs ! j) < rsize (cs ! i))"
proof -
  from heavy_fold_first_max [of cs 0 "- 1"] obtain m hh where f: "fold heavy_step cs (0, - 1) = (m, hh)"
    and all: "\<forall>j<length cs. rsize (cs ! j) \<le> m"
    and alt: "(m = 0 \<and> hh = - 1) \<or>
      (\<exists>i<length cs. hh = rlabel (cs ! i) \<and> rsize (cs ! i) = m \<and> 0 < m \<and> (\<forall>j<i. rsize (cs ! j) < m))"
    by blast
  have "0 < length cs" using assms by simp
  with all have "rsize (cs ! 0) \<le> m" by blast
  then have "m \<noteq> 0" using rsize_pos [of "cs ! 0"] by simp
  with alt obtain i where i: "i < length cs" "hh = rlabel (cs ! i)" "rsize (cs ! i) = m"
    "\<forall>j<i. rsize (cs ! j) < m" by blast
  have "heavy_of (Node u cs) = hh" using f by (simp add: heavy_of_def)
  then show ?thesis using i all by blast
qed

definition D :: "int \<Rightarrow> int set" where
  "D m = {j. \<exists>k::nat. (m + 1) * 2 ^ k \<le> j + 1 \<and> j + 1 < (m + 2) * 2 ^ k}"

definition fits :: "int \<Rightarrow> int \<Rightarrow> int \<Rightarrow> int \<Rightarrow> bool" where
  "fits n node start end = (\<exists>k::nat. node + 2 \<le> 2 ^ (k + 1) \<and> 2 ^ k * (end - start) < n \<and> 2 ^ (k + 1) \<le> 4 * n)"

definition range_sum :: "cint list \<Rightarrow> int \<Rightarrow> int \<Rightarrow> cint" where
  "range_sum arr l r = (\<Sum>i\<leftarrow>[l..r]. arr ! nat i)"

inductive st_ok :: "cint list \<Rightarrow> cint list \<Rightarrow> int \<Rightarrow> int \<Rightarrow> int \<Rightarrow> bool" for t arr where
  leaf: "0 \<le> node \<Longrightarrow> node < int (length t) \<Longrightarrow> 0 \<le> start \<Longrightarrow> start < int (length arr) \<Longrightarrow>
         t ! nat node = arr ! nat start \<Longrightarrow> st_ok t arr node start start"
| split: "0 \<le> node \<Longrightarrow> node < int (length t) \<Longrightarrow> 0 \<le> start \<Longrightarrow> start < end \<Longrightarrow>
          mid = (start + end) div 2 \<Longrightarrow>
          st_ok t arr (2 * node + 1) start mid \<Longrightarrow> st_ok t arr (2 * node + 2) (mid + 1) end \<Longrightarrow>
          t ! nat node = t ! nat (2 * node + 1) + t ! nat (2 * node + 2) \<Longrightarrow>
          st_ok t arr node start end"

definition seg_ok :: "SegmentTree \<Rightarrow> cint list \<Rightarrow> bool" where
  "seg_ok st arr = (st_n st = int (length arr) \<and> arr \<noteq> [] \<and> st_ok (st_tree st) arr 0 0 (st_n st - 1))"

lemma sdiv2: "0 \<le> a \<Longrightarrow> a sdiv 2 = a div (2::int)"
  by (simp add: signed_divide_int_def sgn_if)

lemma D_self: "m \<in> D m"
  unfolding D_def by (auto intro: exI [of _ 0])

lemma D_ge: "j \<in> D m \<Longrightarrow> 0 \<le> m \<Longrightarrow> m \<le> j"
proof -
  assume "j \<in> D m" and m: "0 \<le> m"
  then obtain k :: nat where k: "(m + 1) * 2 ^ k \<le> j + 1" by (auto simp: D_def)
  have "(1::int) \<le> 2 ^ k" by simp
  then have "(m + 1) * 1 \<le> (m + 1) * 2 ^ k" using m by (intro mult_left_mono) auto
  then show ?thesis using k by simp
qed

lemma D_left: "D (2 * m + 1) \<subseteq> D m"
proof
  fix j assume "j \<in> D (2 * m + 1)"
  then obtain k :: nat where "(2 * m + 1 + 1) * 2 ^ k \<le> j + 1" "j + 1 < (2 * m + 1 + 2) * 2 ^ k"
    by (auto simp: D_def)
  then have "(m + 1) * 2 ^ Suc k \<le> j + 1 \<and> j + 1 < (m + 2) * 2 ^ Suc k"
    by (simp add: algebra_simps)
  then show "j \<in> D m" unfolding D_def by blast
qed

lemma D_right: "D (2 * m + 2) \<subseteq> D m"
proof
  fix j assume "j \<in> D (2 * m + 2)"
  then obtain k :: nat where "(2 * m + 2 + 1) * 2 ^ k \<le> j + 1" "j + 1 < (2 * m + 2 + 2) * 2 ^ k"
    by (auto simp: D_def)
  then have "(m + 1) * 2 ^ Suc k \<le> j + 1 \<and> j + 1 < (m + 2) * 2 ^ Suc k"
    by (simp add: algebra_simps)
  then show "j \<in> D m" unfolding D_def by blast
qed

lemma D_disjoint:
  assumes "0 \<le> m" "j \<in> D (2 * m + 1)" "j \<in> D (2 * m + 2)"
  shows False
proof -
  from assms(2) obtain k :: nat where k: "(2 * m + 2) * 2 ^ k \<le> j + 1" "j + 1 < (2 * m + 3) * 2 ^ k"
    by (auto simp: D_def algebra_simps)
  from assms(3) obtain k' :: nat where k': "(2 * m + 3) * 2 ^ k' \<le> j + 1" "j + 1 < (2 * m + 4) * 2 ^ k'"
    by (auto simp: D_def algebra_simps)
  define A :: int where "A = 2 ^ k"
  define B :: int where "B = 2 ^ k'"
  have pos: "0 < A" "0 < B" by (simp_all add: A_def B_def)
  have mA: "0 \<le> m * A" "0 \<le> m * B" using assms(1) pos by simp_all
  have f: "2 * (m * A) + 2 * A \<le> j + 1" "j + 1 < 2 * (m * A) + 3 * A"
    "2 * (m * B) + 3 * B \<le> j + 1" "j + 1 < 2 * (m * B) + 4 * B"
    using k k' by (simp_all add: A_def B_def algebra_simps)
  consider "k = k'" | "k < k'" | "k' < k" by linarith
  then show False
  proof cases
    case 1
    then have "A = B" by (simp add: A_def B_def)
    then show False using f by simp
  next
    case 2
    then have "(2::int) ^ Suc k \<le> 2 ^ k'" by (intro power_increasing) auto
    then have AB: "2 * A \<le> B" by (simp add: A_def B_def)
    then have "m * (2 * A) \<le> m * B" using assms(1) by (intro mult_left_mono) auto
    then show False using f AB pos mA by (simp add: algebra_simps)
  next
    case 3
    then have "(2::int) ^ Suc k' \<le> 2 ^ k" by (intro power_increasing) auto
    then have AB: "2 * B \<le> A" by (simp add: A_def B_def)
    then have "m * (2 * B) \<le> m * A" using assms(1) by (intro mult_left_mono) auto
    then show False using f AB pos mA by (simp add: algebra_simps)
  qed
qed

lemma D_not_left: "0 \<le> m \<Longrightarrow> m \<notin> D (2 * m + 1)"
  using D_ge [of m "2 * m + 1"] by auto

lemma D_not_right: "0 \<le> m \<Longrightarrow> m \<notin> D (2 * m + 2)"
  using D_ge [of m "2 * m + 2"] by auto

lemma fits_root: "1 \<le> n \<Longrightarrow> fits n 0 0 (n - 1)"
  unfolding fits_def by (rule exI [of _ 0]) simp

lemma fits_bound: "fits n node start end \<Longrightarrow> node < 4 * n"
  unfolding fits_def by auto

lemma fits_children:
  assumes "fits n node start end" "start < end"
  shows "fits n (2 * node + 1) start ((start + end) div 2)"
    and "fits n (2 * node + 2) ((start + end) div 2 + 1) end"
proof -
  from assms(1) obtain k :: nat where k: "node + 2 \<le> 2 ^ (k + 1)" "2 ^ k * (end - start) < n"
    "2 ^ (k + 1) \<le> 4 * n" by (auto simp: fits_def)
  define A :: int where "A = 2 ^ k"
  define e where "e = end - start"
  define m where "m = (start + end) div 2"
  have A: "0 < A" by (simp add: A_def)
  have e: "1 \<le> e" using assms(2) by (simp add: e_def)
  have kA: "node + 2 \<le> 2 * A" "A * e < n" using k by (simp_all add: A_def e_def)
  have "A * 1 \<le> A * e" using A e by (intro mult_left_mono) auto
  then have An: "A < n" using kA by simp
  have m1: "2 * (m - start) \<le> e" "2 * (end - (m + 1)) \<le> e" "0 \<le> m - start" "0 \<le> end - (m + 1)"
    using assms(2) by (auto simp: m_def e_def)
  have "A * (2 * (m - start)) \<le> A * e" "A * (2 * (end - (m + 1))) \<le> A * e"
    using A m1 by (auto intro!: mult_left_mono)
  then have c: "2 * A * (m - start) < n" "2 * A * (end - (m + 1)) < n"
    using kA by (simp_all add: algebra_simps)
  have "2 * node + 1 + 2 \<le> 2 ^ (Suc k + 1) \<and> 2 ^ Suc k * (m - start) < n \<and> 2 ^ (Suc k + 1) \<le> 4 * n"
    using kA c An by (simp add: A_def)
  then show "fits n (2 * node + 1) start ((start + end) div 2)"
    unfolding fits_def m_def by blast
  have "2 * node + 2 + 2 \<le> 2 ^ (Suc k + 1) \<and> 2 ^ Suc k * (end - (m + 1)) < n \<and> 2 ^ (Suc k + 1) \<le> 4 * n"
    using kA c An by (simp add: A_def)
  then show "fits n (2 * node + 2) ((start + end) div 2 + 1) end"
    unfolding fits_def m_def by blast
qed

lemma st_ok_frame:
  "st_ok t arr node start end \<Longrightarrow> length t' = length t \<Longrightarrow> (\<forall>j\<in>D node. t' ! nat j = t ! nat j) \<Longrightarrow>
   (\<forall>i. start \<le> i \<and> i \<le> end \<longrightarrow> arr' ! nat i = arr ! nat i) \<Longrightarrow> length arr' = length arr \<Longrightarrow>
   st_ok t' arr' node start end"
proof (induction rule: st_ok.induct)
  case (leaf node start)
  then show ?case using D_self [of node] by (auto intro!: st_ok.leaf)
next
  case (split node start "end" mid)
  have l: "st_ok t' arr' (2 * node + 1) start mid"
    using split.prems split.hyps(4,5) D_left [of node] by (intro split.IH(1)) auto
  have r: "st_ok t' arr' (2 * node + 2) (mid + 1) end"
    using split.prems split.hyps(3,4,5) D_right [of node] by (intro split.IH(2)) auto
  have "2 * node + 1 \<in> D node" "2 * node + 2 \<in> D node" "node \<in> D node"
    using D_left [of node] D_right [of node] D_self by auto
  then have "t' ! nat node = t' ! nat (2 * node + 1) + t' ! nat (2 * node + 2)"
    using split.prems(2) split.hyps(8) by simp
  then show ?case using split.hyps(1-5) split.prems(1) l r by (auto intro: st_ok.split)
qed

lemma st_ok_range: "st_ok t arr node start end \<Longrightarrow> 0 \<le> start \<and> start \<le> end \<and> end < int (length arr)"
  by (induction rule: st_ok.induct) auto

lemma range_sum_single [simp]: "range_sum arr i i = arr ! nat i"
  by (simp add: range_sum_def)

lemma range_sum_empty [simp]: "r < l \<Longrightarrow> range_sum arr l r = 0"
  by (simp add: range_sum_def)

lemma range_sum_split:
  "l \<le> m + 1 \<Longrightarrow> m \<le> r \<Longrightarrow> range_sum arr l r = range_sum arr l m + range_sum arr (m + 1) r"
proof -
  assume a: "l \<le> m + 1" "m \<le> r"
  have "[l..r] = [l..m] @ [m + 1..r]"
  proof (cases "m = r")
    case True
    then show ?thesis by simp
  next
    case False
    then have "m + 1 \<le> r" using a by simp
    from upto_split1 [OF a(1) this] show ?thesis by simp
  qed
  then show ?thesis by (simp add: range_sum_def)
qed

lemma st_ok_sum: "st_ok t arr node start end \<Longrightarrow> t ! nat node = range_sum arr start end"
proof (induction rule: st_ok.induct)
  case (leaf node start)
  then show ?case by simp
next
  case (split node start "end" mid)
  have "start \<le> mid + 1" "mid \<le> end" using split.hyps(4,5) by auto
  from range_sum_split [OF this] split show ?case by simp
qed

lemma st_build_ok:
  assumes "0 \<le> start" "start \<le> end" "end < int (length arr)" "0 \<le> node" "fits n node start end"
    "length t = nat (4 * n)"
  shows "\<exists>t'. st_build arr t node start end = Some t' \<and> length t' = length t \<and>
           st_ok t' arr node start end \<and> (\<forall>j. 0 \<le> j \<longrightarrow> j \<notin> D node \<longrightarrow> t' ! nat j = t ! nat j)"
  using assms
proof (induction "nat (end - start)" arbitrary: start "end" node t rule: less_induct)
  case less
  have nb: "node < int (length t)" using fits_bound [OF less.prems(5)] less.prems(6) by simp
  have nbn: "nat node < length t" using nb less.prems(4) by simp
  show ?case
  proof (cases "start = end")
    case True
    have "st_build arr t node start end = Some (t[nat node := arr ! nat start])"
      using True less.prems nb by (subst st_build.simps) simp
    moreover have "st_ok (t[nat node := arr ! nat start]) arr node start end"
      using True less.prems(1,3,4) nb nbn by (auto intro!: st_ok.leaf)
    moreover have "\<forall>j. 0 \<le> j \<longrightarrow> j \<notin> D node \<longrightarrow> t[nat node := arr ! nat start] ! nat j = t ! nat j"
    proof (intro allI impI)
      fix j assume j: "0 \<le> j" "j \<notin> D node"
      then have "j \<noteq> node" using D_self [of node] by auto
      then have "nat node \<noteq> nat j" using j(1) less.prems(4) by (simp add: eq_nat_nat_iff)
      then show "t[nat node := arr ! nat start] ! nat j = t ! nat j" by simp
    qed
    ultimately show ?thesis by simp
  next
    case False
    then have lt: "start < end" using less.prems(2) by simp
    define mid where "mid = (start + end) div 2"
    have mid: "start \<le> mid" "mid < end" using lt by (auto simp: mid_def)
    have sd: "(start + end) sdiv 2 = mid" using less.prems(1,2) by (simp add: sdiv2 mid_def)
    note fc = fits_children [OF less.prems(5) lt, folded mid_def]
    have "\<exists>t'. st_build arr t (2 * node + 1) start mid = Some t' \<and> length t' = length t \<and>
           st_ok t' arr (2 * node + 1) start mid \<and> (\<forall>j. 0 \<le> j \<longrightarrow> j \<notin> D (2 * node + 1) \<longrightarrow> t' ! nat j = t ! nat j)"
      using mid less.prems fc by (intro less.hyps) auto
    then obtain t1 where t1: "st_build arr t (2 * node + 1) start mid = Some t1" "length t1 = length t"
      "st_ok t1 arr (2 * node + 1) start mid" "\<forall>j. 0 \<le> j \<longrightarrow> j \<notin> D (2 * node + 1) \<longrightarrow> t1 ! nat j = t ! nat j"
      by blast
    have "\<exists>t'. st_build arr t1 (2 * node + 2) (mid + 1) end = Some t' \<and> length t' = length t1 \<and>
           st_ok t' arr (2 * node + 2) (mid + 1) end \<and> (\<forall>j. 0 \<le> j \<longrightarrow> j \<notin> D (2 * node + 2) \<longrightarrow> t' ! nat j = t1 ! nat j)"
      using mid less.prems fc t1(2) by (intro less.hyps) auto
    then obtain t2 where t2: "st_build arr t1 (2 * node + 2) (mid + 1) end = Some t2" "length t2 = length t1"
      "st_ok t2 arr (2 * node + 2) (mid + 1) end" "\<forall>j. 0 \<le> j \<longrightarrow> j \<notin> D (2 * node + 2) \<longrightarrow> t2 ! nat j = t1 ! nat j"
      by blast
    have cb: "2 * node + 1 < int (length t2)" "2 * node + 2 < int (length t2)"
      using fits_bound [OF fc(1)] fits_bound [OF fc(2)] less.prems(6) t1(2) t2(2) by simp_all
    define t3 where "t3 = t2[nat node := combine (t2 ! nat (2 * node + 1)) (t2 ! nat (2 * node + 2))]"
    have res: "st_build arr t node start end = Some t3"
      using False sd t1(1) t2(1) cb nb less.prems(4) t1(2) t2(2)
      by (subst st_build.simps) (simp add: t3_def)
    have len: "length t3 = length t" using t1(2) t2(2) by (simp add: t3_def)
    have nn: "nat node \<noteq> nat (2 * node + 1)" "nat node \<noteq> nat (2 * node + 2)"
      using less.prems(4) by auto
    have l2: "st_ok t2 arr (2 * node + 1) start mid"
    proof (rule st_ok_frame [OF t1(3)])
      show "length t2 = length t1" by (rule t2(2))
      show "\<forall>j\<in>D (2 * node + 1). t2 ! nat j = t1 ! nat j"
      proof
        fix j assume j: "j \<in> D (2 * node + 1)"
        then have "j \<notin> D (2 * node + 2)" using D_disjoint [OF less.prems(4)] by blast
        moreover have "0 \<le> j" using D_ge [OF j] less.prems(4) by simp
        ultimately show "t2 ! nat j = t1 ! nat j" using t2(4) by blast
      qed
    qed simp_all
    have l3: "st_ok t3 arr (2 * node + 1) start mid"
    proof (rule st_ok_frame [OF l2])
      show "\<forall>j\<in>D (2 * node + 1). t3 ! nat j = t2 ! nat j"
      proof
        fix j assume j: "j \<in> D (2 * node + 1)"
        then have "j \<noteq> node" "0 \<le> j" using D_not_left [OF less.prems(4)] D_ge [OF j] less.prems(4) by auto
        then show "t3 ! nat j = t2 ! nat j" using less.prems(4) by (simp add: t3_def eq_nat_nat_iff)
      qed
    qed (simp_all add: t3_def)
    have r3: "st_ok t3 arr (2 * node + 2) (mid + 1) end"
    proof (rule st_ok_frame [OF t2(3)])
      show "\<forall>j\<in>D (2 * node + 2). t3 ! nat j = t2 ! nat j"
      proof
        fix j assume j: "j \<in> D (2 * node + 2)"
        then have "j \<noteq> node" "0 \<le> j" using D_not_right [OF less.prems(4)] D_ge [OF j] less.prems(4) by auto
        then show "t3 ! nat j = t2 ! nat j" using less.prems(4) by (simp add: t3_def eq_nat_nat_iff)
      qed
    qed (simp_all add: t3_def)
    have nl: "nat node < length t2" using nb less.prems(4) t1(2) t2(2) by simp
    have top: "t3 ! nat node = t3 ! nat (2 * node + 1) + t3 ! nat (2 * node + 2)"
      using nn nl by (simp add: t3_def combine_def)
    have nb3: "node < int (length t3)" using nb len by simp
    have ok: "st_ok t3 arr node start end"
      by (rule st_ok.split [OF less.prems(4) nb3 less.prems(1) lt mid_def l3 r3 top])
    have fr: "\<forall>j. 0 \<le> j \<longrightarrow> j \<notin> D node \<longrightarrow> t3 ! nat j = t ! nat j"
    proof (intro allI impI)
      fix j assume j: "0 \<le> j" "j \<notin> D node"
      then have "j \<noteq> node" "j \<notin> D (2 * node + 1)" "j \<notin> D (2 * node + 2)"
        using D_self [of node] D_left [of node] D_right [of node] by auto
      then show "t3 ! nat j = t ! nat j"
        using j(1) less.prems(4) t1(4) t2(4) by (simp add: t3_def eq_nat_nat_iff)
    qed
    show ?thesis using res len ok fr by blast
  qed
qed

lemma range_sum_clip:
  assumes "start \<le> mid" "mid < end" "l \<le> r" "\<not> (r < start \<or> end < l)"
  shows "range_sum arr (max l start) (min r mid) + range_sum arr (max l (mid + 1)) (min r end)
       = range_sum arr (max l start) (min r end)"
proof -
  define a where "a = max l start"
  define b where "b = min r end"
  have ab: "a \<le> b" using assms by (auto simp: a_def b_def)
  consider "b \<le> mid" | "mid < a" | "a \<le> mid" "mid < b" by linarith
  then show ?thesis
  proof cases
    case 1
    then have "min r mid = b" "min r end < max l (mid + 1)" using assms by (auto simp: b_def)
    then show ?thesis by (simp add: a_def b_def)
  next
    case 2
    then have "max l (mid + 1) = a" "min r mid < max l start" using assms by (auto simp: a_def)
    then show ?thesis by (simp add: a_def b_def)
  next
    case 3
    then have "min r mid = mid" "max l (mid + 1) = mid + 1" using assms by (auto simp: a_def b_def)
    moreover have "range_sum arr a b = range_sum arr a mid + range_sum arr (mid + 1) b"
      using 3 by (intro range_sum_split) auto
    ultimately show ?thesis by (simp add: a_def b_def)
  qed
qed

lemma st_query_ok:
  "st_ok t arr node start end \<Longrightarrow> l \<le> r \<Longrightarrow>
   st_query t node start end l r = Some (range_sum arr (max l start) (min r end))"
proof (induction rule: st_ok.induct)
  case (leaf node start)
  show ?case
  proof (cases "r < start \<or> start < l")
    case True
    then have "min r start < max l start" by auto
    then show ?thesis using True by (subst st_query.simps) simp
  next
    case False
    then have "max l start = start" "min r start = start" by auto
    then show ?thesis using False leaf by (subst st_query.simps) simp
  qed
next
  case (split node start "end" mid)
  have whole: "st_ok t arr node start end"
    by (rule st_ok.split [OF split.hyps(1-8)])
  show ?case
  proof (cases "r < start \<or> end < l")
    case True
    then have "min r end < max l start" using split.hyps(4) by auto
    then show ?thesis using True by (subst st_query.simps) simp
  next
    case nd: False
    show ?thesis
    proof (cases "l \<le> start \<and> end \<le> r")
      case True
      then have "max l start = start" "min r end = end" by auto
      then show ?thesis using nd True split.hyps(1,2) st_ok_sum [OF whole]
        by (subst st_query.simps) simp
    next
      case False
      have sd: "(start + end) sdiv 2 = mid" using split.hyps(3,4,5) by (simp add: sdiv2)
      have m: "start \<le> mid" "mid < end" using split.hyps(4,5) by auto
      have "st_query t node start end l r =
          Some (range_sum arr (max l start) (min r mid) + range_sum arr (max l (mid + 1)) (min r end))"
        using nd False sd split.IH(1) [OF split.prems] split.IH(2) [OF split.prems]
        by (subst st_query.simps) (auto simp add: combine_def)
      then show ?thesis using range_sum_clip [OF m split.prems nd] by simp
    qed
  qed
qed

lemma st_update_ok:
  "st_ok t arr node start end \<Longrightarrow> start \<le> idx \<Longrightarrow> idx \<le> end \<Longrightarrow>
   \<exists>t'. st_update t node start end idx val = Some t' \<and> length t' = length t \<and>
     st_ok t' (arr[nat idx := val]) node start end \<and>
     (\<forall>j. 0 \<le> j \<longrightarrow> j \<notin> D node \<longrightarrow> t' ! nat j = t ! nat j)"
proof (induction rule: st_ok.induct)
  case (leaf node start)
  then have i: "idx = start" by simp
  have nbn: "nat node < length t" "nat start < length arr" using leaf by simp_all
  have "st_update t node start start idx val = Some (t[nat node := val])"
    using leaf by (subst st_update.simps) simp
  moreover have "st_ok (t[nat node := val]) (arr[nat idx := val]) node start start"
    using leaf.hyps(1-4) nbn i by (intro st_ok.leaf) simp_all
  moreover have "\<forall>j. 0 \<le> j \<longrightarrow> j \<notin> D node \<longrightarrow> t[nat node := val] ! nat j = t ! nat j"
  proof (intro allI impI)
    fix j assume j: "0 \<le> j" "j \<notin> D node"
    then have "j \<noteq> node" using D_self [of node] by auto
    then have "nat node \<noteq> nat j" using j(1) leaf.hyps(1) by (simp add: eq_nat_nat_iff)
    then show "t[nat node := val] ! nat j = t ! nat j" by simp
  qed
  ultimately show ?case by simp
next
  case (split node start "end" mid)
  let ?arr' = "arr[nat idx := val]"
  have sd: "(start + end) sdiv 2 = mid" using split.hyps(3,4,5) by (simp add: sdiv2)
  have m: "start \<le> mid" "mid < end" using split.hyps(4,5) by auto
  have idx0: "0 \<le> idx" using split.prems(1) split.hyps(3) by simp
  have ex: "\<exists>t1. (if start \<le> idx \<and> idx \<le> mid
               then st_update t (2 * node + 1) start mid idx val
               else st_update t (2 * node + 2) (mid + 1) end idx val) = Some t1 \<and> length t1 = length t \<and>
      st_ok t1 ?arr' (2 * node + 1) start mid \<and> st_ok t1 ?arr' (2 * node + 2) (mid + 1) end \<and>
      (\<forall>j. 0 \<le> j \<longrightarrow> j \<notin> D node \<longrightarrow> t1 ! nat j = t ! nat j)"
  proof (cases "idx \<le> mid")
    case True
    from split.IH(1) [OF split.prems(1) True] obtain t1 where
      t1: "st_update t (2 * node + 1) start mid idx val = Some t1" "length t1 = length t"
      "st_ok t1 ?arr' (2 * node + 1) start mid"
      "\<forall>j. 0 \<le> j \<longrightarrow> j \<notin> D (2 * node + 1) \<longrightarrow> t1 ! nat j = t ! nat j" by blast
    have "st_ok t1 ?arr' (2 * node + 2) (mid + 1) end"
    proof (rule st_ok_frame [OF split.hyps(7) t1(2)])
      show "\<forall>j\<in>D (2 * node + 2). t1 ! nat j = t ! nat j"
      proof
        fix j assume j: "j \<in> D (2 * node + 2)"
        then have "j \<notin> D (2 * node + 1)" using D_disjoint [OF split.hyps(1)] by blast
        moreover have "0 \<le> j" using D_ge [OF j] split.hyps(1) by simp
        ultimately show "t1 ! nat j = t ! nat j" using t1(4) by blast
      qed
      show "\<forall>i. mid + 1 \<le> i \<and> i \<le> end \<longrightarrow> ?arr' ! nat i = arr ! nat i"
      proof (intro allI impI)
        fix i assume "mid + 1 \<le> i \<and> i \<le> end"
        then have "idx \<noteq> i" "0 \<le> i" using True idx0 by auto
        then have "nat idx \<noteq> nat i" using idx0 by (simp add: eq_nat_nat_iff)
        then show "?arr' ! nat i = arr ! nat i" by simp
      qed
    qed simp
    moreover have "\<forall>j. 0 \<le> j \<longrightarrow> j \<notin> D node \<longrightarrow> t1 ! nat j = t ! nat j"
      using t1(4) D_left [of node] by blast
    ultimately show ?thesis using True split.prems(1) t1 by auto
  next
    case False
    then have lo: "mid + 1 \<le> idx" by simp
    from split.IH(2) [OF lo split.prems(2)] obtain t1 where
      t1: "st_update t (2 * node + 2) (mid + 1) end idx val = Some t1" "length t1 = length t"
      "st_ok t1 ?arr' (2 * node + 2) (mid + 1) end"
      "\<forall>j. 0 \<le> j \<longrightarrow> j \<notin> D (2 * node + 2) \<longrightarrow> t1 ! nat j = t ! nat j" by blast
    have "st_ok t1 ?arr' (2 * node + 1) start mid"
    proof (rule st_ok_frame [OF split.hyps(6) t1(2)])
      show "\<forall>j\<in>D (2 * node + 1). t1 ! nat j = t ! nat j"
      proof
        fix j assume j: "j \<in> D (2 * node + 1)"
        then have "j \<notin> D (2 * node + 2)" using D_disjoint [OF split.hyps(1)] by blast
        moreover have "0 \<le> j" using D_ge [OF j] split.hyps(1) by simp
        ultimately show "t1 ! nat j = t ! nat j" using t1(4) by blast
      qed
      show "\<forall>i. start \<le> i \<and> i \<le> mid \<longrightarrow> ?arr' ! nat i = arr ! nat i"
      proof (intro allI impI)
        fix i assume "start \<le> i \<and> i \<le> mid"
        then have "idx \<noteq> i" "0 \<le> i" using lo split.hyps(3) by auto
        then have "nat idx \<noteq> nat i" using idx0 by (simp add: eq_nat_nat_iff)
        then show "?arr' ! nat i = arr ! nat i" by simp
      qed
    qed simp
    moreover have "\<forall>j. 0 \<le> j \<longrightarrow> j \<notin> D node \<longrightarrow> t1 ! nat j = t ! nat j"
      using t1(4) D_right [of node] by blast
    ultimately show ?thesis using False t1 by auto
  qed
  then obtain t1 where t1: "(if start \<le> idx \<and> idx \<le> mid
               then st_update t (2 * node + 1) start mid idx val
               else st_update t (2 * node + 2) (mid + 1) end idx val) = Some t1" "length t1 = length t"
      "st_ok t1 ?arr' (2 * node + 1) start mid" "st_ok t1 ?arr' (2 * node + 2) (mid + 1) end"
      "\<forall>j. 0 \<le> j \<longrightarrow> j \<notin> D node \<longrightarrow> t1 ! nat j = t ! nat j" by blast
  define t3 where "t3 = t1[nat node := combine (t1 ! nat (2 * node + 1)) (t1 ! nat (2 * node + 2))]"
  have cb: "0 \<le> 2 * node + 1" "2 * node + 1 < int (length t1)" "0 \<le> 2 * node + 2" "2 * node + 2 < int (length t1)"
    using t1(3,4) split.hyps(1) by (auto elim: st_ok.cases)
  have nb: "node < int (length t1)" "nat node < length t1" using split.hyps(1,2) t1(2) by simp_all
  have res: "st_update t node start end idx val = Some t3"
    using split.hyps(1,4) sd t1(1) cb nb
    by (subst st_update.simps) (simp add: t3_def)
  have len: "length t3 = length t" using t1(2) by (simp add: t3_def)
  have l3: "st_ok t3 ?arr' (2 * node + 1) start mid"
  proof (rule st_ok_frame [OF t1(3)])
    show "\<forall>j\<in>D (2 * node + 1). t3 ! nat j = t1 ! nat j"
    proof
      fix j assume j: "j \<in> D (2 * node + 1)"
      then have "j \<noteq> node" "0 \<le> j" using D_not_left [OF split.hyps(1)] D_ge [OF j] split.hyps(1) by auto
      then show "t3 ! nat j = t1 ! nat j" using split.hyps(1) by (simp add: t3_def eq_nat_nat_iff)
    qed
  qed (simp_all add: t3_def)
  have r3: "st_ok t3 ?arr' (2 * node + 2) (mid + 1) end"
  proof (rule st_ok_frame [OF t1(4)])
    show "\<forall>j\<in>D (2 * node + 2). t3 ! nat j = t1 ! nat j"
    proof
      fix j assume j: "j \<in> D (2 * node + 2)"
      then have "j \<noteq> node" "0 \<le> j" using D_not_right [OF split.hyps(1)] D_ge [OF j] split.hyps(1) by auto
      then show "t3 ! nat j = t1 ! nat j" using split.hyps(1) by (simp add: t3_def eq_nat_nat_iff)
    qed
  qed (simp_all add: t3_def)
  have nn: "nat node \<noteq> nat (2 * node + 1)" "nat node \<noteq> nat (2 * node + 2)"
    using split.hyps(1) by auto
  have top: "t3 ! nat node = t3 ! nat (2 * node + 1) + t3 ! nat (2 * node + 2)"
    using nn nb by (simp add: t3_def combine_def)
  have nb3: "node < int (length t3)" using nb len t1(2) by simp
  have ok: "st_ok t3 ?arr' node start end"
    by (rule st_ok.split [OF split.hyps(1) nb3 split.hyps(3,4,5) l3 r3 top])
  have fr: "\<forall>j. 0 \<le> j \<longrightarrow> j \<notin> D node \<longrightarrow> t3 ! nat j = t ! nat j"
  proof (intro allI impI)
    fix j assume j: "0 \<le> j" "j \<notin> D node"
    then have "j \<noteq> node" using D_self [of node] by auto
    then show "t3 ! nat j = t ! nat j"
      using j split.hyps(1) t1(5) by (simp add: t3_def eq_nat_nat_iff)
  qed
  show ?case using res len ok fr by blast
qed

definition synced :: "HLD \<Rightarrow> bool" where
  "synced s = (\<exists>arr. seg_ok (seg_tree s) arr \<and> int (length arr) = num_nodes s \<and>
       length (node_values s) = length arr \<and>
       (\<forall>x. 0 \<le> x \<and> x < num_nodes s \<longrightarrow> arr ! nat (pos s ! nat x) = node_values s ! nat x))"

lemma build_from_mapped_values_ok:
  assumes "arr \<noteq> []" "int (length arr) = n"
  shows "\<exists>st. build_from_mapped_values (SegmentTree_new n) arr = Some st \<and> seg_ok st arr"
proof -
  have n: "1 \<le> n" using assms by (cases arr) auto
  have "\<exists>t'. st_build arr (replicate (nat (4 * n)) 0) 0 0 (n - 1) = Some t' \<and>
      length t' = length (replicate (nat (4 * n)) (0::cint)) \<and> st_ok t' arr 0 0 (n - 1) \<and>
      (\<forall>j. 0 \<le> j \<longrightarrow> j \<notin> D 0 \<longrightarrow> t' ! nat j = replicate (nat (4 * n)) 0 ! nat j)"
    using n assms(2) fits_root [OF n] by (intro st_build_ok [where n = n]) auto
  then obtain t' where "st_build arr (replicate (nat (4 * n)) 0) 0 0 (n - 1) = Some t'"
    "st_ok t' arr 0 0 (n - 1)" by blast
  then show ?thesis using assms
    by (simp add: build_from_mapped_values_def SegmentTree_new_def seg_ok_def)
qed

lemma seg_query_ok:
  assumes "seg_ok st arr" "0 \<le> l" "l \<le> r" "r < int (length arr)"
  shows "seg_query st l r = Some (range_sum arr l r)"
proof -
  have ok: "st_ok (st_tree st) arr 0 0 (st_n st - 1)" and n: "st_n st = int (length arr)"
    using assms(1) by (auto simp: seg_ok_def)
  have "max l 0 = l" "min r (st_n st - 1) = r" using assms n by auto
  then show ?thesis using st_query_ok [OF ok assms(3)] assms(3) by (simp add: seg_query_def)
qed

lemma seg_update_ok:
  assumes "seg_ok st arr" "0 \<le> idx" "idx < int (length arr)"
  shows "\<exists>st'. seg_update st idx val = Some st' \<and> seg_ok st' (arr[nat idx := val])"
proof -
  have ok: "st_ok (st_tree st) arr 0 0 (st_n st - 1)" and n: "st_n st = int (length arr)"
    using assms(1) by (auto simp: seg_ok_def)
  have "idx \<le> st_n st - 1" using assms n by simp
  from st_update_ok [OF ok assms(2) this, of val] obtain t' where
    "st_update (st_tree st) 0 0 (st_n st - 1) idx val = Some t'"
    "st_ok t' (arr[nat idx := val]) 0 0 (st_n st - 1)" by blast
  then show ?thesis using assms(1) n by (simp add: seg_update_def seg_ok_def)
qed

lemma values_loop_ok:
  assumes "length (pos s) = nat (num_nodes s)" "length (node_values s) = nat (num_nodes s)"
    "length vs = nat (num_nodes s)"
    "\<forall>x. 0 \<le> x \<and> x < num_nodes s \<longrightarrow> 0 \<le> pos s ! nat x \<and> pos s ! nat x < num_nodes s"
    "inj_on (\<lambda>x. pos s ! nat x) {0..<num_nodes s}"
    "0 \<le> i" "i \<le> num_nodes s"
    "\<forall>x. 0 \<le> x \<and> x < i \<longrightarrow> vs ! nat (pos s ! nat x) = node_values s ! nat x"
  shows "\<exists>vs'. values_loop s i vs = Some vs' \<and> length vs' = nat (num_nodes s) \<and>
     (\<forall>x. 0 \<le> x \<and> x < num_nodes s \<longrightarrow> vs' ! nat (pos s ! nat x) = node_values s ! nat x)"
  using assms
proof (induction s i vs rule: values_loop.induct)
  case (1 s i vs)
  show ?case
  proof (cases "i < num_nodes s")
    case False
    then have "i = num_nodes s" using "1.prems"(7) by simp
    then show ?thesis using "1.prems" False by (subst values_loop.simps) simp
  next
    case True
    define p where "p = pos s ! nat i"
    define x where "x = node_values s ! nat i"
    have pr: "0 \<le> p" "p < num_nodes s" using "1.prems"(4,6) True by (auto simp: p_def)
    define vs1 where "vs1 = vs[nat p := x]"
    have r: "rd (pos s) i = Some p" "rd (node_values s) i = Some x" "wr vs p x = Some vs1"
      using "1.prems"(1,2,3,6) True pr by (simp_all add: p_def x_def vs1_def)
    have step: "values_loop s i vs = values_loop s (i + 1) vs1"
      using True r by (subst values_loop.simps) simp
    have inv: "\<forall>y. 0 \<le> y \<and> y < i + 1 \<longrightarrow> vs1 ! nat (pos s ! nat y) = node_values s ! nat y"
    proof (intro allI impI)
      fix y assume y: "0 \<le> y \<and> y < i + 1"
      show "vs1 ! nat (pos s ! nat y) = node_values s ! nat y"
      proof (cases "y = i")
        case True
        then show ?thesis using pr "1.prems"(3) by (simp add: vs1_def p_def x_def)
      next
        case False
        then have yi: "y < i" using y by simp
        have "pos s ! nat y \<noteq> pos s ! nat i"
          using "1.prems"(5) False y True "1.prems"(6) by (auto dest!: inj_onD)
        moreover have "0 \<le> pos s ! nat y" using "1.prems"(4) y True by auto
        ultimately have "nat p \<noteq> nat (pos s ! nat y)" using pr by (simp add: p_def eq_nat_nat_iff)
        then show ?thesis using "1.prems"(8) y yi by (simp add: vs1_def)
      qed
    qed
    have "\<exists>vs'. values_loop s (i + 1) vs1 = Some vs' \<and> length vs' = nat (num_nodes s) \<and>
     (\<forall>x. 0 \<le> x \<and> x < num_nodes s \<longrightarrow> vs' ! nat (pos s ! nat x) = node_values s ! nat x)"
      using True r "1.prems"(1-6) inv
      by (intro "1.IH" [OF True r]) (simp_all add: vs1_def)
    then show ?thesis using step by simp
  qed
qed

abbreviation par :: "HLD \<Rightarrow> int \<Rightarrow> int" where "par s x \<equiv> parent s ! nat x"
abbreviation dep :: "HLD \<Rightarrow> int \<Rightarrow> int" where "dep s x \<equiv> depth s ! nat x"
abbreviation hed :: "HLD \<Rightarrow> int \<Rightarrow> int" where "hed s x \<equiv> head s ! nat x"
abbreviation psn :: "HLD \<Rightarrow> int \<Rightarrow> int" where "psn s x \<equiv> pos s ! nat x"

definition is_node :: "HLD \<Rightarrow> int \<Rightarrow> bool" where
  "is_node s x = (0 \<le> x \<and> x < num_nodes s)"

definition hld_inv :: "HLD \<Rightarrow> int \<Rightarrow> bool" where
  "hld_inv s root =
     (length (parent s) = nat (num_nodes s) \<and> length (depth s) = nat (num_nodes s) \<and>
      length (head s) = nat (num_nodes s) \<and> length (pos s) = nat (num_nodes s) \<and>
      length (adj s) = nat (num_nodes s) \<and>
      is_node s root \<and> par s root = - 1 \<and> dep s root = 0 \<and>
      (\<forall>x. is_node s x \<longrightarrow> 0 \<le> dep s x \<and> is_node s (hed s x) \<and> is_node s (psn s x) \<and>
          (x \<noteq> root \<longrightarrow> is_node s (par s x) \<and> dep s x = dep s (par s x) + 1) \<and>
          (hed s x \<noteq> x \<longrightarrow> x \<noteq> root \<and> hed s (par s x) = hed s x \<and> psn s x = psn s (par s x) + 1)) \<and>
      inj_on (psn s) {0..<num_nodes s} \<and>
      (\<forall>x y. is_node s x \<longrightarrow> (y \<in> set (adj s ! nat x) \<longleftrightarrow> is_node s y \<and> (par s x = y \<or> par s y = x))))"

lemma decomposed_pos_bij:
  assumes D: "decomposed s root T"
  shows "bij_betw (psn s) {0..<int (length (adj s))} {0..<int (length (adj s))}"
proof -
  let ?n = "int (length (adj s))"
  define L where "L = map fst (hl root T)"
  have TT: "distinct (labels T)" "set (labels T) = {0..<?n}"
    using D by (simp_all add: decomposed_def is_tree_def)
  have setL: "set L = {0..<?n}" using set_hl [of root T] TT by (simp add: L_def)
  have "length (labels T) = card {0..<?n}" using TT by (metis distinct_card)
  then have lenL: "length L = length (adj s)" by (simp add: L_def length_hl)
  have posL: "psn s (L ! i) = int i" if "i < length L" for i
  proof -
    have "placed s 0 (hl root T)" using D by (simp add: decomposed_def)
    then show ?thesis using that by (simp add: placed_def L_def)
  qed
  have inj: "inj_on (psn s) {0..<?n}"
  proof (rule inj_onI)
    fix x y assume "x \<in> {0..<?n}" "y \<in> {0..<?n}" and eq: "psn s x = psn s y"
    then obtain i j where ij: "i < length L" "L ! i = x" "j < length L" "L ! j = y"
      using setL by (metis in_set_conv_nth)
    then have "int i = int j" using posL eq by metis
    then show "x = y" using ij by simp
  qed
  have img: "psn s ` {0..<?n} = {0..<?n}"
  proof (intro equalityI subsetI)
    fix p assume "p \<in> psn s ` {0..<?n}"
    then obtain x where x: "x \<in> set L" "p = psn s x" using setL by auto
    then obtain i where "i < length L" "L ! i = x" by (metis in_set_conv_nth)
    then show "p \<in> {0..<?n}" using posL lenL x by auto
  next
    fix p assume p: "p \<in> {0..<?n}"
    then have i: "nat p < length L" using lenL by auto
    then have "psn s (L ! nat p) = p" using posL p by simp
    moreover have "L ! nat p \<in> {0..<?n}" using i setL nth_mem by blast
    ultimately show "p \<in> psn s ` {0..<?n}" by (metis imageI)
  qed
  show ?thesis using inj img by (simp add: bij_betw_def)
qed

lemma decomposed_step:
  assumes D: "decomposed s root T" and x: "0 \<le> x" "x < int (length (adj s))" "x \<noteq> root"
  shows "0 \<le> par s x" "par s x < int (length (adj s))" "dep s x = dep s (par s x) + 1"
    "x \<in> set (adj s ! nat (par s x))"
    "hed s x \<noteq> x \<longrightarrow> hed s (par s x) = hed s x \<and> psn s x = psn s (par s x) + 1"
proof -
  from decomposed_entry [OF D x(1,2)] obtain px dx cs where
    e: "(px, dx, Node x cs) \<in> set (ctx (- 1) 0 T)" by blast
  from decomposed_up [OF D e x(3)] obtain p' ks where
    e': "(p', dx - 1, Node px ks) \<in> set (ctx (- 1) 0 T)" and k: "Node x cs \<in> set ks" by blast
  note N = decomposed_node [OF D e]
  note P = decomposed_node [OF D e']
  show "0 \<le> par s x" "par s x < int (length (adj s))" "dep s x = dep s (par s x) + 1"
    using N(1,2) P(2,6,7) by simp_all
  have "x \<in> set (map rlabel ks)" using k by force
  then have "x \<in> set (filter (\<lambda>v. v \<noteq> p') (adj s ! nat px))" using P(5) by simp
  then show "x \<in> set (adj s ! nat (par s x))" using N(1) by simp
  show "hed s x \<noteq> x \<longrightarrow> hed s (par s x) = hed s x \<and> psn s x = psn s (par s x) + 1"
  proof (cases "x = heavy_of (Node px ks)")
    case True
    then show ?thesis using decomposed_kid(4) [OF D e' k] N(1) by simp
  next
    case False
    then show ?thesis using decomposed_kid(5) [OF D e' k] by simp
  qed
qed

lemma decomposed_head_node:
  assumes D: "decomposed s root T"
  shows "0 \<le> x \<Longrightarrow> x < int (length (adj s)) \<Longrightarrow> 0 \<le> hed s x \<and> hed s x < int (length (adj s))"
proof (induction "nat (dep s x)" arbitrary: x rule: less_induct)
  case less
  show ?case
  proof (cases "hed s x = x")
    case True
    then show ?thesis using less.prems by simp
  next
    case False
    have "x \<noteq> root" using False decomposed_root(5) [OF D] by auto
    note S = decomposed_step [OF D less.prems this]
    from decomposed_entry [OF D S(1,2)] obtain pp dp cs where
      "(pp, dp, Node (par s x) cs) \<in> set (ctx (- 1) 0 T)" by blast
    from decomposed_node(2,8) [OF D this] have "0 \<le> dep s (par s x)" by simp
    then have "nat (dep s (par s x)) < nat (dep s x)" using S(3) by simp
    from less.hyps [OF this S(1,2)] S(5) False show ?thesis by simp
  qed
qed


lemma decomposed_inv:
  assumes D: "decomposed s root T" and E: "edges_in (adj s) E" and n: "num_nodes s = int (length (adj s))"
  shows "hld_inv s root"
proof -
  have lens: "lens2 s" using D by (simp add: decomposed_def)
  have L: "length (parent s) = nat (num_nodes s)" "length (depth s) = nat (num_nodes s)"
    "length (head s) = nat (num_nodes s)" "length (pos s) = nat (num_nodes s)"
    "length (adj s) = nat (num_nodes s)"
    using lens n by (simp_all add: lens2_def lens1_def)
  note R = decomposed_root [OF D]
  have root: "is_node s root" "par s root = - 1" "dep s root = 0"
    using R n by (simp_all add: is_node_def)
  have bij: "bij_betw (psn s) {0..<num_nodes s} {0..<num_nodes s}"
    using decomposed_pos_bij [OF D] n by simp
  have inj: "inj_on (psn s) {0..<num_nodes s}" using bij by (simp add: bij_betw_def)
  have per: "0 \<le> dep s x \<and> is_node s (hed s x) \<and> is_node s (psn s x) \<and>
          (x \<noteq> root \<longrightarrow> is_node s (par s x) \<and> dep s x = dep s (par s x) + 1) \<and>
          (hed s x \<noteq> x \<longrightarrow> x \<noteq> root \<and> hed s (par s x) = hed s x \<and> psn s x = psn s (par s x) + 1)"
    if "is_node s x" for x
  proof -
    have x: "0 \<le> x" "x < int (length (adj s))" using that n by (simp_all add: is_node_def)
    from decomposed_entry [OF D x] obtain px dx cs where
      e: "(px, dx, Node x cs) \<in> set (ctx (- 1) 0 T)" by blast
    have a: "0 \<le> dep s x" using decomposed_node(2,8) [OF D e] by simp
    have b: "is_node s (hed s x)" using decomposed_head_node [OF D x] n by (simp add: is_node_def)
    have "psn s x \<in> psn s ` {0..<num_nodes s}" using that by (simp add: is_node_def)
    then have c: "is_node s (psn s x)" using bij by (auto simp: bij_betw_def is_node_def)
    have d: "is_node s (par s x) \<and> dep s x = dep s (par s x) + 1" if "x \<noteq> root"
      using decomposed_step(1-3) [OF D x that] n by (simp add: is_node_def)
    have e: "x \<noteq> root \<and> hed s (par s x) = hed s x \<and> psn s x = psn s (par s x) + 1" if "hed s x \<noteq> x"
    proof -
      have "x \<noteq> root" using that R(5) by auto
      then show ?thesis using decomposed_step(5) [OF D x] that by simp
    qed
    show ?thesis using a b c d e by blast
  qed
  have adjc: "(y \<in> set (adj s ! nat x)) = (is_node s y \<and> (par s x = y \<or> par s y = x))"
    if "is_node s x" for x y
  proof -
    have x: "0 \<le> x" "x < int (length (adj s))" using that n by (simp_all add: is_node_def)
    note Ex = E [unfolded edges_in_def, rule_format, OF x]
    from decomposed_entry [OF D x] obtain px dx cs where
      e: "(px, dx, Node x cs) \<in> set (ctx (- 1) 0 T)" by blast
    note N = decomposed_node [OF D e]
    show ?thesis
    proof
      assume yin: "y \<in> set (adj s ! nat x)"
      then have yn: "is_node s y" using Ex n by (simp add: is_node_def)
      show "is_node s y \<and> (par s x = y \<or> par s y = x)"
      proof (cases "y = px")
        case True
        then show ?thesis using yn N(1) by simp
      next
        case False
        then have "y \<in> set (filter (\<lambda>v. v \<noteq> px) (adj s ! nat x))" using yin by simp
        then have "y \<in> set (map rlabel cs)" using N(5) by simp
        then obtain c where c: "c \<in> set cs" "rlabel c = y" by auto
        from decomposed_kid(1) [OF D e c(1)] c(2) yn show ?thesis by simp
      qed
    next
      assume a: "is_node s y \<and> (par s x = y \<or> par s y = x)"
      then have y: "0 \<le> y" "y < int (length (adj s))" using n by (simp_all add: is_node_def)
      note Ey = E [unfolded edges_in_def, rule_format, OF y]
      from a show "y \<in> set (adj s ! nat x)"
      proof (elim conjE disjE)
        assume p: "par s y = x"
        then have "y \<noteq> root" using R(3) x(1) by auto
        from decomposed_step(4) [OF D y this] p show ?thesis by simp
      next
        assume p: "par s x = y"
        then have "x \<noteq> root" using R(3) y(1) by auto
        from decomposed_step(4) [OF D x this] p have "x \<in> set (adj s ! nat y)" by simp
        then have "(y, x) \<in> E \<or> (x, y) \<in> E" using Ey by blast
        then show ?thesis using Ex by blast
      qed
    qed
  qed
  show ?thesis
    unfolding hld_inv_def using L root per inj adjc by blast
qed

definition up :: "HLD \<Rightarrow> nat \<Rightarrow> int \<Rightarrow> int" where
  "up s k x = ((\<lambda>y. parent s ! nat y) ^^ k) x"

definition climb :: "HLD \<Rightarrow> nat \<Rightarrow> int \<Rightarrow> int list" where
  "climb s k x = map (\<lambda>j. up s j x) [0..<Suc k]"

definition anc :: "HLD \<Rightarrow> int \<Rightarrow> int \<Rightarrow> bool" where
  "anc s a x = (\<exists>j\<le>nat (dep s x). up s j x = a)"

definition is_lca :: "HLD \<Rightarrow> int \<Rightarrow> int \<Rightarrow> int \<Rightarrow> bool" where
  "is_lca s w u v = (anc s w u \<and> anc s w v \<and> (\<forall>a. anc s a u \<and> anc s a v \<longrightarrow> dep s a \<le> dep s w))"

lemma up_0 [simp]: "up s 0 x = x"
  by (simp add: up_def)

lemma up_Suc: "up s (Suc k) x = par s (up s k x)"
  by (simp add: up_def)

lemma up_Suc2: "up s (Suc k) x = up s k (par s x)"
  by (induction k) (simp_all add: up_Suc)

lemma up_add: "up s (i + j) x = up s i (up s j x)"
  by (simp add: up_def funpow_add)

lemma length_climb [simp]: "length (climb s k x) = Suc k"
  by (simp add: climb_def)

lemma climb_nth: "j \<le> k \<Longrightarrow> climb s k x ! j = up s j x"
  unfolding climb_def by (subst nth_map) (simp_all del: upt_Suc)

lemma climb_0 [simp]: "climb s 0 x = [x]"
  by (simp add: climb_def)

lemma climb_snoc: "climb s (Suc k) x = climb s k x @ [up s (Suc k) x]"
  by (simp add: climb_def)

lemma climb_Suc: "climb s (Suc k) x = x # climb s k (par s x)"
proof (induction k)
  case 0
  then show ?case by (simp add: climb_def up_Suc)
next
  case (Suc k)
  have "climb s (Suc (Suc k)) x = climb s (Suc k) x @ [up s (Suc (Suc k)) x]" by (rule climb_snoc)
  also have "\<dots> = x # climb s k (par s x) @ [up s (Suc k) (par s x)]"
    using Suc by (simp add: up_Suc2)
  also have "\<dots> = x # climb s (Suc k) (par s x)" by (simp add: climb_snoc)
  finally show ?case .
qed

lemma climb_append: "climb s (j + Suc k) x = climb s j x @ climb s k (up s (Suc j) x)"
proof (induction j arbitrary: x)
  case 0
  then show ?case by (simp add: climb_Suc up_Suc)
next
  case (Suc j)
  have "climb s (Suc j + Suc k) x = x # climb s (j + Suc k) (par s x)" by (simp add: climb_Suc)
  also have "\<dots> = x # climb s j (par s x) @ climb s k (up s (Suc j) (par s x))" using Suc by simp
  also have "\<dots> = climb s (Suc j) x @ climb s k (up s (Suc (Suc j)) x)"
    by (simp add: climb_Suc up_Suc2)
  finally show ?case .
qed

lemma set_climb: "set (climb s k x) = {up s j x | j. j \<le> k}"
  unfolding climb_def by (auto simp del: upt_Suc simp: less_Suc_eq_le)

lemma last_climb: "last (climb s k x) = up s k x"
  by (cases k) (simp_all add: climb_snoc)

lemma hd_climb: "hd (climb s k x) = x"
  by (cases k) (simp_all add: climb_Suc)

text \<open>Consequences of the invariant.\<close>

lemma inv_node:
  assumes "hld_inv s root" "is_node s x"
  shows "0 \<le> dep s x" "is_node s (hed s x)" "is_node s (psn s x)"
    "x \<noteq> root \<Longrightarrow> is_node s (par s x) \<and> dep s x = dep s (par s x) + 1"
    "hed s x \<noteq> x \<Longrightarrow> x \<noteq> root \<and> hed s (par s x) = hed s x \<and> psn s x = psn s (par s x) + 1"
  using assms unfolding hld_inv_def by blast+

lemma inv_root:
  assumes "hld_inv s root"
  shows "is_node s root" "par s root = - 1" "dep s root = 0"
  using assms unfolding hld_inv_def by blast+

lemma inv_dep0: "hld_inv s root \<Longrightarrow> is_node s x \<Longrightarrow> dep s x = 0 \<Longrightarrow> x = root"
proof (rule ccontr)
  assume a: "hld_inv s root" "is_node s x" "dep s x = 0" "x \<noteq> root"
  from inv_node(4) [OF a(1,2,4)] have "is_node s (par s x)" "dep s x = dep s (par s x) + 1" by auto
  then show False using inv_node(1) [OF a(1), of "par s x"] a(3) by simp
qed

lemma up_node:
  assumes I: "hld_inv s root"
  shows "is_node s x \<Longrightarrow> j \<le> nat (dep s x) \<Longrightarrow> is_node s (up s j x) \<and> dep s (up s j x) = dep s x - int j"
proof (induction j)
  case 0
  then show ?case by simp
next
  case (Suc j)
  then have IH: "is_node s (up s j x)" "dep s (up s j x) = dep s x - int j" by auto
  then have "dep s (up s j x) \<noteq> 0" using Suc.prems(2) by simp
  then have "up s j x \<noteq> root" using inv_root(3) [OF I] by auto
  from inv_node(4) [OF I IH(1) this] IH(2) show ?case by (simp add: up_Suc)
qed

lemma up_root: "hld_inv s root \<Longrightarrow> is_node s x \<Longrightarrow> up s (nat (dep s x)) x = root"
proof -
  assume I: "hld_inv s root" and x: "is_node s x"
  from up_node [OF I x, of "nat (dep s x)"] inv_node(1) [OF I x]
  have "is_node s (up s (nat (dep s x)) x)" "dep s (up s (nat (dep s x)) x) = 0" by auto
  then show ?thesis using inv_dep0 [OF I] by blast
qed

lemma anc_refl: "anc s x x"
  unfolding anc_def by (rule exI [of _ 0]) simp

lemma anc_root: "hld_inv s root \<Longrightarrow> is_node s x \<Longrightarrow> anc s root x"
  unfolding anc_def using up_root by blast

lemma anc_node: "hld_inv s root \<Longrightarrow> is_node s x \<Longrightarrow> anc s a x \<Longrightarrow> is_node s a \<and> dep s a \<le> dep s x"
  unfolding anc_def using up_node by fastforce

lemma anc_up:
  assumes "hld_inv s root" "is_node s x" "anc s a x"
  shows "a = up s (nat (dep s x - dep s a)) x"
proof -
  from assms(3) obtain j where j: "j \<le> nat (dep s x)" "up s j x = a" by (auto simp: anc_def)
  from up_node [OF assms(1,2) j(1)] j(2) have "dep s a = dep s x - int j" by simp
  then have "j = nat (dep s x - dep s a)" by simp
  then show ?thesis using j(2) by simp
qed

lemma anc_same_depth:
  "hld_inv s root \<Longrightarrow> is_node s x \<Longrightarrow> anc s a x \<Longrightarrow> anc s b x \<Longrightarrow> dep s a = dep s b \<Longrightarrow> a = b"
  using anc_up by metis

lemma anc_trans:
  assumes I: "hld_inv s root" and x: "is_node s x" and ax: "anc s a x" and ba: "anc s b a"
  shows "anc s b x"
proof -
  from ax obtain i where i: "i \<le> nat (dep s x)" "up s i x = a" by (auto simp: anc_def)
  from ba obtain j where j: "j \<le> nat (dep s a)" "up s j a = b" by (auto simp: anc_def)
  have da: "dep s a = dep s x - int i" using up_node [OF I x i(1)] i(2) by simp
  have "up s (j + i) x = b" using i(2) j(2) by (simp add: up_add)
  moreover have "j + i \<le> nat (dep s x)" using j(1) da i(1) by simp
  ultimately show ?thesis unfolding anc_def by blast
qed

lemma anc_chain:
  assumes I: "hld_inv s root" and x: "is_node s x" and ax: "anc s a x" and bx: "anc s b x"
    and d: "dep s b \<le> dep s a"
  shows "anc s b a"
proof -
  note A = anc_node [OF I x ax] and B = anc_node [OF I x bx]
  have a: "a = up s (nat (dep s x - dep s a)) x" and b: "b = up s (nat (dep s x - dep s b)) x"
    using anc_up [OF I x] ax bx by auto
  have d0: "0 \<le> dep s b" using inv_node(1) [OF I] B by blast
  have "nat (dep s x - dep s b) = nat (dep s a - dep s b) + nat (dep s x - dep s a)"
    using d d0 A B by (subst nat_add_distrib [symmetric]) auto
  then have "up s (nat (dep s a - dep s b)) a = b" using a b up_add by metis
  moreover have "nat (dep s a - dep s b) \<le> nat (dep s a)" using d0 by simp
  ultimately show ?thesis unfolding anc_def by blast
qed

lemma anc_antisym:
  "hld_inv s root \<Longrightarrow> is_node s x \<Longrightarrow> is_node s a \<Longrightarrow> anc s a x \<Longrightarrow> anc s x a \<Longrightarrow> a = x"
proof -
  assume I: "hld_inv s root" and x: "is_node s x" "is_node s a" and a: "anc s a x" "anc s x a"
  have "dep s a = dep s x" using anc_node [OF I x(1) a(1)] anc_node [OF I x(2) a(2)] by simp
  then show ?thesis using anc_same_depth [OF I x(1) a(1) anc_refl] by simp
qed

lemma is_lca_unique:
  assumes I: "hld_inv s root" and u: "is_node s u" and "is_lca s w u v" "is_lca s w' u v"
  shows "w = w'"
proof -
  have "dep s w = dep s w'" using assms(3,4) unfolding is_lca_def by (meson order_antisym)
  then show ?thesis using anc_same_depth [OF I u] assms(3,4) unfolding is_lca_def by blast
qed

definition chain_len :: "HLD \<Rightarrow> int \<Rightarrow> nat" where
  "chain_len s v = nat (dep s v - dep s (hed s v))"

lemma nat_diff_le: "(b::int) \<le> c \<Longrightarrow> nat (a - c) \<le> nat (a - b)"
  by simp

lemma nat_diff_le0: "(0::int) \<le> c \<Longrightarrow> nat (a - c) \<le> nat a"
  by simp

lemma nat_Suc_diff: "(h::int) \<le> p \<Longrightarrow> nat (p + 1 - h) = Suc (nat (p - h))"
  by simp

lemma chain_up:
  assumes I: "hld_inv s root"
  shows "is_node s v \<Longrightarrow> dep s (hed s v) \<le> dep s v \<and> up s (chain_len s v) v = hed s v \<and>
     (\<forall>j\<le>chain_len s v. hed s (up s j v) = hed s v \<and> psn s (up s j v) = psn s v - int j)"
proof (induction "nat (dep s v)" arbitrary: v rule: less_induct)
  case less
  show ?case
  proof (cases "hed s v = v")
    case True
    then show ?thesis by (simp add: chain_len_def)
  next
    case False
    from inv_node(5) [OF I less.prems False]
    have nr: "v \<noteq> root" and hp: "hed s (par s v) = hed s v" and pp: "psn s v = psn s (par s v) + 1"
      by auto
    from inv_node(4) [OF I less.prems nr]
    have pn: "is_node s (par s v)" and dp: "dep s v = dep s (par s v) + 1" by auto
    have d0: "0 \<le> dep s (par s v)" using inv_node(1) [OF I pn] .
    have "nat (dep s (par s v)) < nat (dep s v)" using dp d0 by simp
    from less.hyps [OF this pn]
    have IH: "dep s (hed s v) \<le> dep s (par s v)" "up s (chain_len s (par s v)) (par s v) = hed s v"
      "\<forall>j\<le>chain_len s (par s v). hed s (up s j (par s v)) = hed s v \<and>
          psn s (up s j (par s v)) = psn s (par s v) - int j"
      using hp by auto
    have cl: "chain_len s v = Suc (chain_len s (par s v))"
      unfolding chain_len_def hp dp by (rule nat_Suc_diff [OF IH(1)])
    have "hed s (up s j v) = hed s v \<and> psn s (up s j v) = psn s v - int j" if "j \<le> chain_len s v" for j
    proof (cases j)
      case 0
      then show ?thesis by simp
    next
      case (Suc j')
      then have "j' \<le> chain_len s (par s v)" using that cl by simp
      then show ?thesis using IH(3) Suc pp by (simp add: up_Suc2)
    qed
    then show ?thesis using IH(1,2) dp cl by (simp add: up_Suc2)
  qed
qed

lemma chain_len_le: "hld_inv s root \<Longrightarrow> is_node s v \<Longrightarrow> chain_len s v \<le> nat (dep s v)"
  using inv_node(1,2) [of s root v] inv_node(1) [of s root "hed s v"] by (simp add: chain_len_def)

lemma hed_idem: "hld_inv s root \<Longrightarrow> is_node s v \<Longrightarrow> hed s (hed s v) = hed s v"
  using chain_up [of s root v] by (metis order_refl)

lemma anc_hed: "hld_inv s root \<Longrightarrow> is_node s v \<Longrightarrow> anc s (hed s v) v"
  unfolding anc_def using chain_up [of s root v] chain_len_le [of s root v] by blast

lemma same_chain_anc:
  assumes I: "hld_inv s root" and u: "is_node s u" and v: "is_node s v"
    and h: "hed s u = hed s v" and d: "dep s u \<le> dep s v"
  shows "u = up s (nat (dep s v - dep s u)) v" "nat (dep s v - dep s u) \<le> chain_len s v"
    "anc s u v"
proof -
  note Cu = chain_up [OF I u] and Cv = chain_up [OF I v]
  define j where "j = nat (dep s v - dep s u)"
  have hd: "dep s (hed s v) \<le> dep s u" using Cu h by simp
  have du0: "0 \<le> dep s u" "0 \<le> dep s (hed s v)"
    using inv_node(1) [OF I u] inv_node(1,2) [OF I v] inv_node(1) [OF I, of "hed s v"] by auto
  show jl: "nat (dep s v - dep s u) \<le> chain_len s v"
    unfolding chain_len_def by (rule nat_diff_le [OF hd])
  have jd: "j \<le> nat (dep s v)" unfolding j_def by (rule nat_diff_le0 [OF du0(1)])
  from up_node [OF I v jd] have an: "is_node s (up s j v)" and ad: "dep s (up s j v) = dep s u"
    using d by (simp_all add: j_def)
  have pa: "psn s (up s j v) = psn s v - int j" using Cv jl by (simp add: j_def)
  have ph: "psn s (hed s v) = psn s v - int (chain_len s v)" using Cv by (metis order_refl)
  have ph': "psn s (hed s v) = psn s u - int (chain_len s u)" using Cu h by (metis order_refl)
  have "int (chain_len s v) - int j = int (chain_len s u)"
    using hd d h by (simp add: chain_len_def j_def)
  then have "psn s (up s j v) = psn s u" using pa ph ph' by simp
  moreover have "inj_on (psn s) {0..<num_nodes s}" using I by (simp add: hld_inv_def)
  ultimately have "up s j v = u" using an u by (auto simp: is_node_def dest!: inj_onD)
  then show "u = up s (nat (dep s v - dep s u)) v" by (simp add: j_def)
  then show "anc s u v" unfolding anc_def using jd j_def by metis
qed

lemma head_not_anc:
  assumes I: "hld_inv s root" and u: "is_node s u" and v: "is_node s v"
    and h: "hed s u \<noteq> hed s v" and d: "dep s (hed s v) \<le> dep s (hed s u)"
  shows "\<not> anc s (hed s u) v"
proof
  assume a: "anc s (hed s u) v"
  note A = anc_node [OF I v a]
  have "hed s u = up s (nat (dep s v - dep s (hed s u))) v" using anc_up [OF I v a] .
  moreover have "nat (dep s v - dep s (hed s u)) \<le> chain_len s v"
    unfolding chain_len_def by (rule nat_diff_le [OF d])
  ultimately have "hed s (hed s u) = hed s v" using chain_up [OF I v] by metis
  then show False using hed_idem [OF I u] h by simp
qed

lemma chain_not_anc:
  assumes I: "hld_inv s root" and u: "is_node s u" and v: "is_node s v"
    and na: "\<not> anc s (hed s u) v" and j: "j \<le> chain_len s u"
  shows "\<not> anc s (up s j u) v"
proof
  assume a: "anc s (up s j u) v"
  have jd: "j \<le> nat (dep s u)" using j chain_len_le [OF I u] by simp
  note N = up_node [OF I u jd]
  have "up s (chain_len s u - j) (up s j u) = hed s u"
    using chain_up [OF I u] j up_add [of s "chain_len s u - j" j u] by simp
  moreover have "chain_len s u - j \<le> nat (dep s (up s j u))"
    using N chain_len_le [OF I u] by simp
  ultimately have "anc s (hed s u) (up s j u)" unfolding anc_def by blast
  from anc_trans [OF I v a this] na show False by simp
qed

lemma jump_common:
  assumes I: "hld_inv s root" and u: "is_node s u" and v: "is_node s v"
    and na: "\<not> anc s (hed s u) v"
  shows "hed s u \<noteq> root" "is_node s (par s (hed s u))"
    "dep s (par s (hed s u)) = dep s u - int (chain_len s u) - 1"
    "par s (hed s u) = up s (Suc (chain_len s u)) u"
    "anc s a u \<and> anc s a v \<longleftrightarrow> anc s a (par s (hed s u)) \<and> anc s a v"
proof -
  let ?h = "hed s u" and ?k = "chain_len s u"
  note C = chain_up [OF I u]
  have hn: "is_node s ?h" using inv_node(2) [OF I u] .
  show nr: "?h \<noteq> root" using anc_root [OF I v] na by auto
  from inv_node(4) [OF I hn nr] show pn: "is_node s (par s ?h)" by simp
  have dh: "dep s ?h = dep s u - int ?k" using C inv_node(1) [OF I hn] by (simp add: chain_len_def)
  show dp: "dep s (par s ?h) = dep s u - int ?k - 1" using inv_node(4) [OF I hn nr] dh by simp
  show pu: "par s ?h = up s (Suc ?k) u" using C by (simp add: up_Suc)
  have d0: "0 \<le> dep s (par s ?h)" using inv_node(1) [OF I pn] .
  have sk: "Suc ?k \<le> nat (dep s u)" using dp d0 by simp
  have pa: "anc s (par s ?h) u" unfolding anc_def using pu sk by metis
  show "anc s a u \<and> anc s a v \<longleftrightarrow> anc s a (par s ?h) \<and> anc s a v"
  proof
    assume a: "anc s a u \<and> anc s a v"
    then obtain i where i: "i \<le> nat (dep s u)" "up s i u = a" by (auto simp: anc_def)
    have "\<not> i \<le> ?k" using chain_not_anc [OF I u v na] i(2) a by auto
    then obtain i' where i': "i = i' + Suc ?k" by (metis add.commute less_imp_Suc_add not_le_imp_less add_Suc_right)
    have "up s (i' + Suc ?k) u = up s i' (up s (Suc ?k) u)" by (rule up_add)
    then have "up s i' (par s ?h) = a" using i(2) pu i' by simp
    moreover have "i' \<le> nat (dep s (par s ?h))" using i' i(1) dp by simp
    ultimately have "anc s a (par s ?h)" unfolding anc_def by blast
    then show "anc s a (par s ?h) \<and> anc s a v" using a by simp
  next
    assume a: "anc s a (par s ?h) \<and> anc s a v"
    then show "anc s a u \<and> anc s a v" using anc_trans [OF I u pa] by blast
  qed
qed

lemma inv_rd:
  assumes "hld_inv s root" "is_node s x"
  shows "rd (head s) x = Some (hed s x)" "rd (depth s) x = Some (dep s x)"
    "rd (parent s) x = Some (par s x)" "rd (pos s) x = Some (psn s x)"
proof -
  have "0 \<le> x" "x < int (length (head s))" "x < int (length (depth s))"
    "x < int (length (parent s))" "x < int (length (pos s))"
    using assms by (simp_all add: hld_inv_def is_node_def)
  then show "rd (head s) x = Some (hed s x)" "rd (depth s) x = Some (dep s x)"
    "rd (parent s) x = Some (par s x)" "rd (pos s) x = Some (psn s x)"
    by simp_all
qed

lemma jump_measure:
  assumes I: "hld_inv s root" and u: "is_node s u" and v: "is_node s v"
    and na: "\<not> anc s (hed s u) v"
  shows "nat (dep s (par s (hed s u)) + dep s v) < nat (dep s u + dep s v)"
proof -
  note J = jump_common [OF I u v na]
  have "0 \<le> dep s (par s (hed s u))" "0 \<le> dep s v" using inv_node(1) [OF I] J(2) v by auto
  moreover have "dep s (par s (hed s u)) < dep s u" using J(3) by simp
  ultimately show ?thesis by simp
qed

lemma get_lca_loop_ok:
  assumes I: "hld_inv s root"
  shows "is_node s u \<Longrightarrow> is_node s v \<Longrightarrow>
    \<exists>u' v'. get_lca_loop s u v = Some (u', v') \<and> is_node s u' \<and> is_node s v' \<and> hed s u' = hed s v' \<and>
       (\<forall>a. (anc s a u' \<and> anc s a v') = (anc s a u \<and> anc s a v))"
proof (induction "nat (dep s u + dep s v)" arbitrary: u v rule: less_induct)
  case less
  note ru = inv_rd [OF I less.prems(1)] and rv = inv_rd [OF I less.prems(2)]
  show ?case
  proof (cases "hed s u = hed s v")
    case True
    have "get_lca_loop s u v = Some (u, v)"
      using True ru rv by (subst get_lca_loop.simps) simp
    then show ?thesis using less.prems True by simp
  next
    case False
    define u1 where "u1 = (if dep s (hed s u) < dep s (hed s v) then v else u)"
    define v1 where "v1 = (if dep s (hed s u) < dep s (hed s v) then u else v)"
    have n1: "is_node s u1" "is_node s v1" using less.prems by (simp_all add: u1_def v1_def)
    have h1: "hed s u1 \<noteq> hed s v1" "dep s (hed s v1) \<le> dep s (hed s u1)"
      using False by (auto simp: u1_def v1_def)
    have sym: "(anc s a u1 \<and> anc s a v1) = (anc s a u \<and> anc s a v)" for a
      by (auto simp: u1_def v1_def)
    have meq: "nat (dep s u1 + dep s v1) = nat (dep s u + dep s v)"
      by (simp add: u1_def v1_def add.commute)
    note na = head_not_anc [OF I n1 h1]
    note J = jump_common [OF I n1 na]
    note hu = inv_node(2) [OF I less.prems(1)] and hv = inv_node(2) [OF I less.prems(2)]
    have hn1: "is_node s (hed s u1)" using inv_node(2) [OF I n1(1)] .
    have step: "get_lca_loop s u v = get_lca_loop s (par s (hed s u1)) v1"
      using False ru rv inv_rd [OF I hu] inv_rd [OF I hv]
      by (subst get_lca_loop.simps) (simp add: u1_def v1_def)
    have "nat (dep s (par s (hed s u1)) + dep s v1) < nat (dep s u + dep s v)"
      using jump_measure [OF I n1 na] meq by simp
    from less.hyps [OF this J(2) n1(2)] obtain u' v' where
      r: "get_lca_loop s (par s (hed s u1)) v1 = Some (u', v')" "is_node s u'" "is_node s v'"
      "hed s u' = hed s v'"
      "\<forall>a. (anc s a u' \<and> anc s a v') = (anc s a (par s (hed s u1)) \<and> anc s a v1)" by blast
    have "\<forall>a. (anc s a u' \<and> anc s a v') = (anc s a u \<and> anc s a v)"
      using r(5) J(5) sym by blast
    then show ?thesis using step r by simp
  qed
qed

lemma get_lca_ok:
  assumes I: "hld_inv s root" and u: "is_node s u" and v: "is_node s v"
  shows "\<exists>w. get_lca s u v = Some w \<and> is_lca s w u v"
proof -
  from get_lca_loop_ok [OF I u v] obtain u' v' where
    r: "get_lca_loop s u v = Some (u', v')" "is_node s u'" "is_node s v'" "hed s u' = hed s v'"
    and c: "\<And>a. (anc s a u' \<and> anc s a v') = (anc s a u \<and> anc s a v)" by blast
  define w where "w = (if dep s u' < dep s v' then u' else v')"
  have res: "get_lca s u v = Some w"
    using r(1) inv_rd [OF I r(2)] inv_rd [OF I r(3)] by (simp add: get_lca_def w_def)
  have "is_lca s w u' v'"
  proof (cases "dep s u' < dep s v'")
    case True
    then have "anc s u' v'" using same_chain_anc(3) [OF I r(2,3,4)] by simp
    then show ?thesis using True anc_node [OF I r(2)] unfolding is_lca_def w_def
      by (auto simp: anc_refl)
  next
    case False
    then have "anc s v' u'" using same_chain_anc(3) [OF I r(3,2)] r(4) by simp
    then show ?thesis using False anc_node [OF I r(3)] unfolding is_lca_def w_def
      by (auto simp: anc_refl)
  qed
  then have "is_lca s w u v" unfolding is_lca_def using c by blast
  then show ?thesis using res by blast
qed

abbreviation nval :: "HLD \<Rightarrow> int \<Rightarrow> cint" where "nval s x \<equiv> node_values s ! nat x"

definition csum :: "HLD \<Rightarrow> nat \<Rightarrow> int \<Rightarrow> cint" where
  "csum s k x = sum_list (map (nval s) (climb s k x))"

definition psum :: "HLD \<Rightarrow> int \<Rightarrow> int \<Rightarrow> int \<Rightarrow> cint" where
  "psum s u v w = csum s (nat (dep s u - dep s w)) u + csum s (nat (dep s v - dep s w)) v - nval s w"

lemma csum_0 [simp]: "csum s 0 x = nval s x"
  by (simp add: csum_def)

lemma csum_snoc: "csum s (Suc k) x = csum s k x + nval s (up s (Suc k) x)"
  by (simp add: csum_def climb_snoc)

lemma csum_append: "csum s (j + Suc k) x = csum s j x + csum s k (up s (Suc j) x)"
  unfolding csum_def climb_append by simp

lemma nat_jump: "(w::int) \<le> p \<Longrightarrow> d = int k + 1 + p \<Longrightarrow> nat (d - w) = k + Suc (nat (p - w))"
  by simp

lemma psum_commute: "psum s u v w = psum s v u w"
  by (simp add: psum_def)

lemma chain_range_sum:
  assumes I: "hld_inv s root" and v: "is_node s v"
    and arr: "\<forall>x. is_node s x \<longrightarrow> arr ! nat (psn s x) = nval s x"
  shows "k \<le> chain_len s v \<Longrightarrow> range_sum arr (psn s v - int k) (psn s v) = csum s k v"
proof (induction k)
  case 0
  then show ?case using arr v by simp
next
  case (Suc k)
  note C = chain_up [OF I v]
  have kd: "Suc k \<le> nat (dep s v)" using Suc.prems chain_len_le [OF I v] by simp
  have un: "is_node s (up s (Suc k) v)" using up_node [OF I v kd] by simp
  have pu: "psn s (up s (Suc k) v) = psn s v - int (Suc k)" using C Suc.prems by blast
  have "range_sum arr (psn s v - int (Suc k)) (psn s v)
      = range_sum arr (psn s v - int (Suc k)) (psn s v - int (Suc k))
        + range_sum arr (psn s v - int (Suc k) + 1) (psn s v)"
    by (rule range_sum_split) simp_all
  also have "psn s v - int (Suc k) + 1 = psn s v - int k" by simp
  also have "range_sum arr (psn s v - int k) (psn s v) = csum s k v" using Suc by simp
  also have "range_sum arr (psn s v - int (Suc k)) (psn s v - int (Suc k)) = nval s (up s (Suc k) v)"
    using arr un pu by (metis range_sum_single)
  finally show ?case by (simp add: csum_snoc)
qed

lemma seg_chain_query:
  assumes I: "hld_inv s root" and S: "synced s" and v: "is_node s v" and k: "k \<le> chain_len s v"
  shows "seg_query (seg_tree s) (psn s v - int k) (psn s v) = Some (csum s k v)"
proof -
  from S obtain arr where ok: "seg_ok (seg_tree s) arr" and len: "int (length arr) = num_nodes s"
    and arr: "\<forall>x. 0 \<le> x \<and> x < num_nodes s \<longrightarrow> arr ! nat (pos s ! nat x) = node_values s ! nat x"
    by (auto simp: synced_def)
  have arr': "\<forall>x. is_node s x \<longrightarrow> arr ! nat (psn s x) = nval s x" using arr by (simp add: is_node_def)
  have kd: "k \<le> nat (dep s v)" using k chain_len_le [OF I v] by simp
  have un: "is_node s (up s k v)" using up_node [OF I v kd] by simp
  have pu: "psn s (up s k v) = psn s v - int k" using chain_up [OF I v] k by blast
  have "is_node s (psn s (up s k v))" "is_node s (psn s v)" using inv_node(3) [OF I] un v by auto
  then have r: "0 \<le> psn s v - int k" "psn s v < int (length arr)" using pu len by (simp_all add: is_node_def)
  have "seg_query (seg_tree s) (psn s v - int k) (psn s v) = Some (range_sum arr (psn s v - int k) (psn s v))"
    using r by (intro seg_query_ok [OF ok]) simp_all
  then show ?thesis using chain_range_sum [OF I v arr' k] by simp
qed

lemma psum_jump:
  assumes I: "hld_inv s root" and u: "is_node s u" and v: "is_node s v"
    and na: "\<not> anc s (hed s u) v" and w: "is_lca s w u v"
  shows "psum s u v w = csum s (chain_len s u) u + psum s (par s (hed s u)) v w"
proof -
  note J = jump_common [OF I u v na]
  let ?p = "par s (hed s u)" and ?k = "chain_len s u"
  have "anc s w ?p" using J(5) [of w] w by (simp add: is_lca_def)
  from anc_node [OF I J(2) this] have dw: "dep s w \<le> dep s ?p" by simp
  define m where "m = nat (dep s ?p - dep s w)"
  have "dep s u = int ?k + 1 + dep s ?p" using J(3) by simp
  then have "nat (dep s u - dep s w) = ?k + Suc m" unfolding m_def by (rule nat_jump [OF dw])
  then have "csum s (nat (dep s u - dep s w)) u = csum s ?k u + csum s m ?p"
    using csum_append [of s ?k m u] J(4) by simp
  then show ?thesis by (simp add: psum_def m_def)
qed

lemma is_lca_commute: "is_lca s w u v = is_lca s w v u"
  unfolding is_lca_def by blast

lemma query_path_loop_ok:
  assumes I: "hld_inv s root" and S: "synced s"
  shows "is_node s u \<Longrightarrow> is_node s v \<Longrightarrow> is_lca s w u v \<Longrightarrow>
    \<exists>u' v' r'. query_path_loop s u v r = Some (u', v', r') \<and> is_node s u' \<and> is_node s v' \<and>
       hed s u' = hed s v' \<and> is_lca s w u' v' \<and> r' + psum s u' v' w = r + psum s u v w"
proof (induction "nat (dep s u + dep s v)" arbitrary: u v r rule: less_induct)
  case less
  note ru = inv_rd [OF I less.prems(1)] and rv = inv_rd [OF I less.prems(2)]
  show ?case
  proof (cases "hed s u = hed s v")
    case True
    have "query_path_loop s u v r = Some (u, v, r)"
      using True ru rv by (subst query_path_loop.simps) simp
    then show ?thesis using less.prems True by simp
  next
    case False
    define u1 where "u1 = (if dep s (hed s u) < dep s (hed s v) then v else u)"
    define v1 where "v1 = (if dep s (hed s u) < dep s (hed s v) then u else v)"
    have n1: "is_node s u1" "is_node s v1" using less.prems by (simp_all add: u1_def v1_def)
    have h1: "hed s u1 \<noteq> hed s v1" "dep s (hed s v1) \<le> dep s (hed s u1)"
      using False by (auto simp: u1_def v1_def)
    have w1: "is_lca s w u1 v1" using less.prems(3) is_lca_commute by (simp add: u1_def v1_def)
    have ps: "psum s u1 v1 w = psum s u v w" using psum_commute by (simp add: u1_def v1_def)
    have meq: "nat (dep s u1 + dep s v1) = nat (dep s u + dep s v)"
      by (simp add: u1_def v1_def add.commute)
    note na = head_not_anc [OF I n1 h1]
    note J = jump_common [OF I n1 na]
    note hu = inv_node(2) [OF I less.prems(1)] and hv = inv_node(2) [OF I less.prems(2)]
    define q where "q = csum s (chain_len s u1) u1"
    have ph: "psn s (hed s u1) = psn s u1 - int (chain_len s u1)"
      using chain_up [OF I n1(1)] by (metis order_refl)
    have sq: "seg_query (seg_tree s) (psn s (hed s u1)) (psn s u1) = Some q"
      unfolding ph q_def by (rule seg_chain_query [OF I S n1(1) order_refl])
    have step: "query_path_loop s u v r = query_path_loop s (par s (hed s u1)) v1 (r + q)"
    proof (cases "dep s (hed s u) < dep s (hed s v)")
      case True
      then have e: "u1 = v" "v1 = u" by (simp_all add: u1_def v1_def)
      show ?thesis
        using False True ru rv inv_rd [OF I hu] inv_rd [OF I hv] sq [unfolded e]
        by (subst query_path_loop.simps) (simp add: e)
    next
      case nl: False
      then have e: "u1 = u" "v1 = v" by (simp_all add: u1_def v1_def)
      show ?thesis
        using False nl ru rv inv_rd [OF I hu] inv_rd [OF I hv] sq [unfolded e]
        by (subst query_path_loop.simps) (simp add: e)
    qed
    have w2: "is_lca s w (par s (hed s u1)) v1"
      using w1 J(5) unfolding is_lca_def by blast
    have "nat (dep s (par s (hed s u1)) + dep s v1) < nat (dep s u + dep s v)"
      using jump_measure [OF I n1 na] meq by simp
    from less.hyps [OF this J(2) n1(2) w2, of "r + q"] obtain u' v' r' where
      res: "query_path_loop s (par s (hed s u1)) v1 (r + q) = Some (u', v', r')" "is_node s u'"
      "is_node s v'" "hed s u' = hed s v'" "is_lca s w u' v'"
      "r' + psum s u' v' w = r + q + psum s (par s (hed s u1)) v1 w" by blast
    have "psum s u v w = q + psum s (par s (hed s u1)) v1 w"
      using psum_jump [OF I n1 na w1] ps by (simp add: q_def)
    then have "r' + psum s u' v' w = r + psum s u v w" using res(6) by simp
    then show ?thesis using step res(1-5) by simp
  qed
qed

lemma query_path_ok:
  assumes I: "hld_inv s root" and S: "synced s" and u: "is_node s u" and v: "is_node s v"
    and w: "is_lca s w u v"
  shows "query_path s u v = Some (psum s u v w)"
proof -
  from query_path_loop_ok [OF I S u v w, of 0] obtain u' v' r' where
    res: "query_path_loop s u v 0 = Some (u', v', r')" "is_node s u'" "is_node s v'"
    "hed s u' = hed s v'" "is_lca s w u' v'" "r' + psum s u' v' w = psum s u v w" by auto
  define u2 where "u2 = (if dep s u' > dep s v' then v' else u')"
  define v2 where "v2 = (if dep s u' > dep s v' then u' else v')"
  have n2: "is_node s u2" "is_node s v2" using res(2,3) by (simp_all add: u2_def v2_def)
  have h2: "hed s u2 = hed s v2" "dep s u2 \<le> dep s v2" using res(4) by (auto simp: u2_def v2_def)
  have w2: "is_lca s w u2 v2" using res(5) is_lca_commute by (simp add: u2_def v2_def)
  have ps: "psum s u2 v2 w = psum s u' v' w" using psum_commute by (simp add: u2_def v2_def)
  note A = same_chain_anc [OF I n2 h2]
  define j where "j = nat (dep s v2 - dep s u2)"
  have "is_lca s u2 u2 v2"
    unfolding is_lca_def using A(3) anc_refl anc_node [OF I n2(1)] by blast
  then have wu: "w = u2" using is_lca_unique [OF I n2(1) w2] by simp
  have p2: "psum s u2 v2 w = csum s j v2" by (simp add: psum_def wu j_def)
  have pu: "psn s u2 = psn s v2 - int j"
    using chain_up [OF I n2(2)] A(1,2) unfolding j_def by metis
  have sq: "seg_query (seg_tree s) (psn s u2) (psn s v2) = Some (csum s j v2)"
    unfolding pu by (rule seg_chain_query [OF I S n2(2)]) (use A(2) in \<open>simp add: j_def\<close>)
  have "query_path s u v = Some (r' + csum s j v2)"
  proof (cases "dep s u' > dep s v'")
    case True
    then have e: "u2 = v'" "v2 = u'" by (simp_all add: u2_def v2_def)
    show ?thesis
      using res(1) True inv_rd [OF I res(2)] inv_rd [OF I res(3)] sq [unfolded e]
      by (simp add: query_path_def e)
  next
    case False
    then have e: "u2 = u'" "v2 = v'" by (simp_all add: u2_def v2_def)
    show ?thesis
      using res(1) False inv_rd [OF I res(2)] inv_rd [OF I res(3)] sq [unfolded e]
      by (simp add: query_path_def e)
  qed
  then show ?thesis using res(6) p2 ps by simp
qed

lemma same_topology_inv: "same_topology s s' \<Longrightarrow> hld_inv s root \<Longrightarrow> hld_inv s' root"
  unfolding same_topology_def hld_inv_def is_node_def by simp

lemma build_synced:
  assumes fr: "fresh n s0" and T: "is_tree (adj s0) root T" and k: "nat n \<le> k"
    and lv: "int (length (node_values s0)) = n"
  shows "\<exists>s. build k s0 root = Some s \<and> synced s \<and> node_values s = node_values s0"
proof -
  from build_dfs [OF fr T k] obtain s1 s2 where
    s1: "dfs1_size_depth_parent k s0 root (- 1) 0 = Some s1" and s2: "dfs2_hld k s1 root root = Some s2"
    and d: "decomposed s2 root T" and o: "cur_pos s2 = n" "num_nodes s2 = n"
      "node_values s2 = node_values s0" "seg_tree s2 = seg_tree s0" "adj s2 = adj s0"
    by blast
  have la: "length (adj s2) = nat n" using o(5) fr by (simp add: fresh_def)
  have n1: "1 \<le> n"
  proof -
    have "root \<in> set (labels T)" using T labels_rlabel [of T] by (auto simp: is_tree_def)
    then have "0 \<le> root" "root < int (length (adj s2))" using T o(5) by (auto simp: is_tree_def)
    then show ?thesis using la by (cases "0 \<le> n") simp_all
  qed
  have nn: "int (length (adj s2)) = n" using la n1 by simp
  have bij: "bij_betw (psn s2) {0..<n} {0..<n}" using decomposed_pos_bij [OF d] nn by simp
  have lp: "length (pos s2) = nat (num_nodes s2)"
    using d la o(2) by (simp add: decomposed_def lens2_def)
  have rng: "\<forall>x. 0 \<le> x \<and> x < num_nodes s2 \<longrightarrow> 0 \<le> pos s2 ! nat x \<and> pos s2 ! nat x < num_nodes s2"
  proof (intro allI impI)
    fix x assume "0 \<le> x \<and> x < num_nodes s2"
    then have "psn s2 x \<in> psn s2 ` {0..<n}" using o(2) by simp
    then show "0 \<le> pos s2 ! nat x \<and> pos s2 ! nat x < num_nodes s2"
      using bij o(2) by (auto simp: bij_betw_def)
  qed
  have inj: "inj_on (\<lambda>x. pos s2 ! nat x) {0..<num_nodes s2}"
    using bij o(2) by (simp add: bij_betw_def)
  have lv2: "length (node_values s2) = nat (num_nodes s2)" using lv o(2,3) by simp
  have "\<exists>vs'. values_loop s2 0 (replicate (nat (num_nodes s2)) 0) = Some vs' \<and>
     length vs' = nat (num_nodes s2) \<and>
     (\<forall>x. 0 \<le> x \<and> x < num_nodes s2 \<longrightarrow> vs' ! nat (pos s2 ! nat x) = node_values s2 ! nat x)"
  proof (rule values_loop_ok [OF lp lv2 _ rng inj])
    show "length (replicate (nat (num_nodes s2)) (0::cint)) = nat (num_nodes s2)" by simp
    show "(0::int) \<le> 0" by simp
    show "0 \<le> num_nodes s2" using n1 o(2) by simp
    show "\<forall>x. 0 \<le> x \<and> x < 0 \<longrightarrow>
        replicate (nat (num_nodes s2)) 0 ! nat (pos s2 ! nat x) = node_values s2 ! nat x"
    proof (intro allI impI)
      fix x :: int assume a: "0 \<le> x \<and> x < 0"
      then have False by linarith
      then show "replicate (nat (num_nodes s2)) 0 ! nat (pos s2 ! nat x) = node_values s2 ! nat x" ..
    qed
  qed
  then obtain vs where vs: "values_loop s2 0 (replicate (nat (num_nodes s2)) 0) = Some vs"
    "length vs = nat (num_nodes s2)"
    "\<forall>x. 0 \<le> x \<and> x < num_nodes s2 \<longrightarrow> vs ! nat (pos s2 ! nat x) = node_values s2 ! nat x"
    by blast
  have vne: "vs \<noteq> []" "int (length vs) = n" using vs(2) o(2) n1 by auto
  have st0: "seg_tree s2 = SegmentTree_new n" using o(4) fr by (simp add: fresh_def)
  from build_from_mapped_values_ok [OF vne] obtain st where
    st: "build_from_mapped_values (SegmentTree_new n) vs = Some st" "seg_ok st vs" by blast
  define s where "s = s2\<lparr>seg_tree := st\<rparr>"
  have b: "build k s0 root = Some s"
    using s1 s2 vs(1) st(1) st0 by (simp add: build_def s_def)
  have "synced s"
    unfolding synced_def
    using st(2) vne(2) vs(3) o(2) lv2 vs(2) by (intro exI [of _ vs]) (simp add: s_def)
  then show ?thesis using b o(3) by (auto simp: s_def)
qed

lemma update_node_value_ok:
  assumes I: "hld_inv s root" and S: "synced s" and u: "is_node s u"
  shows "\<exists>s'. update_node_value s u x = Some s' \<and> synced s' \<and> same_topology s s' \<and>
     node_values s' = (node_values s)[nat u := x]"
proof -
  from S obtain arr where ok: "seg_ok (seg_tree s) arr" and len: "int (length arr) = num_nodes s"
    and lv: "length (node_values s) = length arr"
    and arr: "\<forall>y. 0 \<le> y \<and> y < num_nodes s \<longrightarrow> arr ! nat (pos s ! nat y) = node_values s ! nat y"
    by (auto simp: synced_def)
  have ur: "0 \<le> u" "u < int (length (node_values s))" using u lv len by (simp_all add: is_node_def)
  have pn: "is_node s (psn s u)" using inv_node(3) [OF I u] .
  then have pr: "0 \<le> psn s u" "psn s u < int (length arr)" using len by (simp_all add: is_node_def)
  from seg_update_ok [OF ok pr, of x] obtain st' where
    st': "seg_update (seg_tree s) (psn s u) x = Some st'" "seg_ok st' (arr[nat (psn s u) := x])" by blast
  define s' where "s' = s\<lparr>node_values := (node_values s)[nat u := x], seg_tree := st'\<rparr>"
  have res: "update_node_value s u x = Some s'"
    using ur st'(1) inv_rd(4) [OF I u] by (simp add: update_node_value_def s'_def)
  have inj: "inj_on (psn s) {0..<num_nodes s}" using I by (simp add: hld_inv_def)
  have "arr[nat (psn s u) := x] ! nat (pos s' ! nat y) = node_values s' ! nat y"
    if "0 \<le> y \<and> y < num_nodes s'" for y
  proof (cases "y = u")
    case True
    then show ?thesis using pr ur by (simp add: s'_def)
  next
    case False
    have y: "is_node s y" using that by (simp add: s'_def is_node_def)
    have "psn s y \<noteq> psn s u" using inj y u False by (auto simp: is_node_def dest!: inj_onD)
    moreover have "0 \<le> psn s y" using inv_node(3) [OF I y] by (simp add: is_node_def)
    ultimately have "nat (psn s u) \<noteq> nat (psn s y)" using pr by (simp add: eq_nat_nat_iff)
    moreover have "nat u \<noteq> nat y" using False that ur by (simp add: eq_nat_nat_iff)
    ultimately show ?thesis using arr y by (simp add: s'_def is_node_def)
  qed
  then have "synced s'"
    unfolding synced_def using st'(2) len lv
    by (intro exI [of _ "arr[nat (psn s u) := x]"]) (simp add: s'_def)
  moreover have "same_topology s s'" by (simp add: same_topology_def s'_def)
  ultimately show ?thesis using res by (simp add: s'_def)
qed

lemma updates_ok:
  "hld_inv s root \<Longrightarrow> synced s \<Longrightarrow> updates s ups = Some s' \<Longrightarrow> hld_inv s' root \<and> synced s'"
proof (induction ups arbitrary: s)
  case Nil
  then show ?case by simp
next
  case (Cons a ups)
  obtain u x where a: "a = (u, x)" by (cases a) auto
  from Cons.prems(3) a obtain s1 where s1: "update_node_value s u x = Some s1" "updates s1 ups = Some s'"
    by (auto simp: bind_eq_Some_conv)
  have "0 \<le> u \<and> u < int (length (node_values s))"
    using s1(1) by (auto simp: update_node_value_def bind_eq_Some_conv dest: wr_SomeD)
  moreover have "int (length (node_values s)) = num_nodes s" using Cons.prems(2) by (auto simp: synced_def)
  ultimately have "is_node s u" by (simp add: is_node_def)
  from update_node_value_ok [OF Cons.prems(1,2) this, of x] s1(1)
  have "synced s1" "same_topology s s1" by auto
  then show ?case using Cons.IH [OF _ _ s1(2)] same_topology_inv Cons.prems(1) by blast
qed

lemma built_inv:
  assumes "built n vals es root k ups s"
  shows "hld_inv s root" "synced s" "num_nodes s = n" "edges_in (adj s) (set es)"
proof -
  from assms obtain s0 s1 where s0: "add_edges (HLD_new n vals) es = Some s0"
    and v: "valid_tree (adj s0) root" and k: "nat n \<le> k" and lv: "int (length vals) = n"
    and b: "build k s0 root = Some s1" and u: "updates s1 ups = Some s"
    by (auto simp: built_def bind_eq_Some_conv split: option.splits)
  note f = add_edges_fresh [OF s0]
  from valid_tree_is_tree [OF v] obtain T where T: "is_tree (adj s0) root T" by blast
  note B = build_topology [OF f(1) T k b]
  have lv0: "int (length (node_values s0)) = n" using f(2) lv by simp
  from build_synced [OF f(1) T k lv0] b have S1: "synced s1" by auto
  have n1: "num_nodes s1 = int (length (adj s1))" using B(2,3) f(1) lv by (simp add: fresh_def)
  have e1: "edges_in (adj s1) (set es)" using f(3) B(3) by simp
  have I1: "hld_inv s1 root" using decomposed_inv [OF B(1) e1 n1] .
  note t = updates_topology [OF u]
  show "hld_inv s root" "synced s" using updates_ok [OF I1 S1 u] by auto
  show "num_nodes s = n" "edges_in (adj s) (set es)" using t B(2) e1 by (simp_all add: same_topology_def)
qed

lemma build_returns:
  assumes "add_edges (HLD_new n vals) es = Some s0" "valid_tree (adj s0) root" "int (length vals) = n"
    "nat n \<le> k"
  shows "\<exists>s. build k s0 root = Some s \<and> built n vals es root k [] s"
proof -
  note f = add_edges_fresh [OF assms(1)]
  from valid_tree_is_tree [OF assms(2)] obtain T where T: "is_tree (adj s0) root T" by blast
  have "int (length (node_values s0)) = n" using f(2) assms(3) by simp
  from build_synced [OF f(1) T assms(4) this] obtain s where "build k s0 root = Some s" by blast
  then show ?thesis using assms by (simp add: built_def)
qed

section \<open>Properties\<close>

text \<open>
  C9: for every segment tree and every pair of indices with \<open>left > right\<close>, the public
  \<open>query(left, right)\<close> returns the identity 0 of the sum, whatever the structure holds.
\<close>

theorem seg_query_empty_range:
  "query_left > query_right \<Longrightarrow> seg_query st query_left query_right = Some 0"
  by (simp add: seg_query_def)

theorem seg_query_empty_range_witness:
  "(3::int) > 1 \<and> seg_query (SegmentTree_new 4) 3 1 = Some 0"
  using seg_query_empty_range [of 1 3 "SegmentTree_new 4"] by simp



subsection \<open>An example: the seven-node tree of the tests\<close>

definition example_hld :: HLD where
  "example_hld = the (do {
     s0 \<leftarrow> add_edges (HLD_new 7 [2, 10, 5, 3, 8, 1, 7]) [(1, 0), (1, 2), (1, 3), (0, 4), (3, 5), (5, 6)];
     build 7 s0 1 })"

lemma example_built:
  "built 7 [2, 10, 5, 3, 8, 1, 7] [(1, 0), (1, 2), (1, 3), (0, 4), (3, 5), (5, 6)] 1 7 [] example_hld"
  by code_simp

text \<open>
  C3: after \<open>build(root)\<close> on a valid tree, a node \<open>u\<close> with heavy child \<open>c\<close> (not \<open>-1\<close>)
  has \<open>pos[c] = pos[u] + 1\<close>.
\<close>

theorem heavy_child_next_pos:
  assumes "built n vals es root k ups s" and "0 \<le> u" and "u < n"
    and "heavy_child s ! nat u = c" and "c \<noteq> - 1"
  shows "pos s ! nat c = pos s ! nat u + 1"
proof -
  from built_decomposed [OF assms(1)] obtain T where D: "decomposed s root T"
    and n: "length (adj s) = nat n" by blast
  have "u < int (length (adj s))" using n assms(2,3) by simp
  from decomposed_entry [OF D assms(2) this] obtain px dx cs where
    e: "(px, dx, Node u cs) \<in> set (ctx (- 1) 0 T)" by blast
  have hv: "heavy_of (Node u cs) = c" using decomposed_node(4) [OF D e] assms(4) by simp
  then have "cs \<noteq> []" using assms(5) by auto
  from heavy_of_in [OF this, of u] hv obtain kc where kc: "kc \<in> set cs" "rlabel kc = c" by auto
  from decomposed_kid(4) [OF D e kc(1)] kc(2) hv show ?thesis by simp
qed

theorem heavy_child_next_pos_witness:
  "built 7 [2, 10, 5, 3, 8, 1, 7] [(1, 0), (1, 2), (1, 3), (0, 4), (3, 5), (5, 6)] 1 7 [] example_hld
   \<and> heavy_child example_hld ! nat 1 = 3 \<and> pos example_hld ! nat 3 = pos example_hld ! nat 1 + 1"
proof -
  have h: "heavy_child example_hld ! nat 1 = 3" by code_simp
  from heavy_child_next_pos [OF example_built _ _ h] have "pos example_hld ! nat 3 = pos example_hld ! nat 1 + 1"
    by simp
  then show ?thesis using example_built h by simp
qed

text \<open>
  C10: after \<open>build(root)\<close> on a valid tree of \<open>n\<close> nodes, \<open>pos\<close> is a bijection from the
  nodes \<open>0..n-1\<close> onto the positions \<open>0..n-1\<close>, and the counter has reached \<open>n\<close>.
\<close>

theorem pos_bijection:
  assumes "built n vals es root k ups s"
  shows "bij_betw (\<lambda>x. pos s ! nat x) {0..<n} {0..<n} \<and> cur_pos s = n"
proof -
  from assms obtain s0 s1 where s0: "add_edges (HLD_new n vals) es = Some s0"
    and v: "valid_tree (adj s0) root" and k: "nat n \<le> k"
    and b: "build k s0 root = Some s1" and u: "updates s1 ups = Some s"
    by (auto simp: built_def bind_eq_Some_conv split: option.splits)
  from valid_tree_is_tree [OF v] obtain T0 where T0: "is_tree (adj s0) root T0" by blast
  have cp: "cur_pos s = n"
    using build_topology(4) [OF add_edges_fresh(1) [OF s0] T0 k b] updates_topology [OF u]
    by (simp add: same_topology_def)
  from built_decomposed [OF assms] obtain T where D: "decomposed s root T"
    and n: "length (adj s) = nat n" by blast
  define L where "L = map fst (hl root T)"
  have setL: "set L = {0..<n}"
  proof -
    have "set L = set (labels T)" using set_hl [of root T] by (simp add: L_def)
    also have "\<dots> = {0..<int (length (adj s))}" using D by (simp add: decomposed_def is_tree_def)
    also have "\<dots> = {0..<n}" using n by auto
    finally show ?thesis .
  qed
  have lenL: "length L = nat n"
  proof -
    have "distinct (labels T)" "set (labels T) = {0..<int (length (adj s))}"
      using D by (simp_all add: decomposed_def is_tree_def)
    then have "length (labels T) = card {0..<int (length (adj s))}" by (metis distinct_card)
    then show ?thesis using n by (simp add: L_def length_hl)
  qed
  have posL: "pos s ! nat (L ! i) = int i" if "i < length L" for i
  proof -
    have "placed s 0 (hl root T)" using D by (simp add: decomposed_def)
    then show ?thesis using that by (simp add: placed_def L_def)
  qed
  have inj: "inj_on (\<lambda>x. pos s ! nat x) {0..<n}"
  proof (rule inj_onI)
    fix x y assume "x \<in> {0..<n}" "y \<in> {0..<n}" and eq: "pos s ! nat x = pos s ! nat y"
    then obtain i j where ij: "i < length L" "L ! i = x" "j < length L" "L ! j = y"
      using setL by (metis in_set_conv_nth)
    then have "int i = int j" using posL eq by metis
    then show "x = y" using ij by simp
  qed
  have img: "(\<lambda>x. pos s ! nat x) ` {0..<n} = {0..<n}"
  proof (intro equalityI subsetI)
    fix p assume "p \<in> (\<lambda>x. pos s ! nat x) ` {0..<n}"
    then obtain x where x: "x \<in> set L" "p = pos s ! nat x" using setL by auto
    then obtain i where "i < length L" "L ! i = x" by (metis in_set_conv_nth)
    then show "p \<in> {0..<n}" using posL lenL x by auto
  next
    fix p assume p: "p \<in> {0..<n}"
    then have i: "nat p < length L" using lenL by auto
    then have "pos s ! nat (L ! nat p) = p" using posL p by simp
    moreover have "L ! nat p \<in> {0..<n}" using i setL nth_mem by blast
    ultimately show "p \<in> (\<lambda>x. pos s ! nat x) ` {0..<n}" by (metis imageI)
  qed
  show ?thesis using inj img cp by (simp add: bij_betw_def)
qed

theorem pos_bijection_witness:
  "built 7 [2, 10, 5, 3, 8, 1, 7] [(1, 0), (1, 2), (1, 3), (0, 4), (3, 5), (5, 6)] 1 7 [] example_hld
   \<and> bij_betw (\<lambda>x. pos example_hld ! nat x) {0..<7} {0..<7} \<and> cur_pos example_hld = 7
   \<and> pos example_hld = [4, 0, 6, 1, 5, 2, 3]"
proof -
  have "pos example_hld = [4, 0, 6, 1, 5, 2, 3]" by code_simp
  then show ?thesis using pos_bijection [OF example_built] example_built by simp
qed


text \<open>
  C4: what pass 1 leaves in \<open>parent\<close>, \<open>depth\<close>, \<open>subtree_size\<close> and \<open>heavy_child\<close>. The
  children of \<open>u\<close> are its neighbours other than its parent, in the order of \<open>adj[u]\<close>.
  The root has parent \<open>-1\<close> and depth 0; every other node is a child of its parent and one
  deeper; the size of \<open>u\<close> is 1 plus the sizes of its children; a leaf keeps heavy child
  \<open>-1\<close>; otherwise the heavy child is the first child of maximal size.
\<close>

theorem pass1_arrays:
  assumes "built n vals es root k ups s" and "0 \<le> u" and "u < n"
  shows "parent s ! nat root = - 1 \<and> depth s ! nat root = 0 \<and>
     (u \<noteq> root \<longrightarrow> 0 \<le> parent s ! nat u \<and> parent s ! nat u < n \<and>
        u \<in> set (children s (parent s ! nat u)) \<and>
        depth s ! nat u = depth s ! nat (parent s ! nat u) + 1) \<and>
     (\<forall>c\<in>set (children s u). 0 \<le> c \<and> c < n \<and> parent s ! nat c = u) \<and>
     subtree_size s ! nat u = 1 + (\<Sum>c\<leftarrow>children s u. subtree_size s ! nat c) \<and>
     (children s u = [] \<longrightarrow> heavy_child s ! nat u = - 1) \<and>
     (children s u \<noteq> [] \<longrightarrow>
        (\<exists>i<length (children s u). heavy_child s ! nat u = children s u ! i \<and>
           (\<forall>j<length (children s u).
              subtree_size s ! nat (children s u ! j) \<le> subtree_size s ! nat (children s u ! i)) \<and>
           (\<forall>j<i. subtree_size s ! nat (children s u ! j) < subtree_size s ! nat (children s u ! i))))"
proof -
  from built_decomposed [OF assms(1)] obtain T where D: "decomposed s root T"
    and n: "length (adj s) = nat n" by blast
  have ur: "u < int (length (adj s))" using n assms(2,3) by simp
  from decomposed_entry [OF D assms(2) ur] obtain px dx cs where
    e: "(px, dx, Node u cs) \<in> set (ctx (- 1) 0 T)" by blast
  note N = decomposed_node [OF D e]
  have ch: "children s u = map rlabel cs" using N(1,5) by (simp add: children_def)
  have szk: "subtree_size s ! nat (rlabel kc) = rsize kc" if "kc \<in> set cs" for kc
    using decomposed_kid(3) [OF D e that] .
  have c1: "parent s ! nat root = - 1 \<and> depth s ! nat root = 0"
    using decomposed_root [OF D] by simp
  have c2: "0 \<le> parent s ! nat u \<and> parent s ! nat u < n \<and>
        u \<in> set (children s (parent s ! nat u)) \<and>
        depth s ! nat u = depth s ! nat (parent s ! nat u) + 1" if "u \<noteq> root"
  proof -
    from decomposed_up [OF D e that] obtain p' ks where
      e': "(p', dx - 1, Node px ks) \<in> set (ctx (- 1) 0 T)" and k: "Node u cs \<in> set ks" by blast
    note P = decomposed_node [OF D e']
    have "children s px = map rlabel ks" using P(1,5) by (simp add: children_def)
    then have "u \<in> set (children s px)" using k by force
    then show ?thesis using N(1,2) P(2,6,7) n assms(2,3) by simp
  qed
  have c3: "\<forall>c\<in>set (children s u). 0 \<le> c \<and> c < n \<and> parent s ! nat c = u"
  proof
    fix c assume "c \<in> set (children s u)"
    then obtain kc where kc: "kc \<in> set cs" "rlabel kc = c" using ch by auto
    obtain cs' where kc': "kc = Node c cs'" using kc(2) by (cases kc) auto
    from ctx_kids [OF e kc(1)] have "(u, dx + 1, Node c cs') \<in> set (ctx (- 1) 0 T)" using kc' by simp
    from decomposed_node(1,6,7) [OF D this] show "0 \<le> c \<and> c < n \<and> parent s ! nat c = u"
      using n assms(2,3) by simp
  qed
  have "map (\<lambda>c. subtree_size s ! nat c) (children s u) = map rsize cs"
    using szk by (simp add: ch)
  then have c4: "subtree_size s ! nat u = 1 + (\<Sum>c\<leftarrow>children s u. subtree_size s ! nat c)"
    using N(3) by (simp add: rsize_Node)
  have c5: "heavy_child s ! nat u = - 1" if "children s u = []"
    using that ch N(4) by simp
  have c6: "\<exists>i<length (children s u). heavy_child s ! nat u = children s u ! i \<and>
           (\<forall>j<length (children s u).
              subtree_size s ! nat (children s u ! j) \<le> subtree_size s ! nat (children s u ! i)) \<and>
           (\<forall>j<i. subtree_size s ! nat (children s u ! j) < subtree_size s ! nat (children s u ! i))"
    if "children s u \<noteq> []"
  proof -
    have "cs \<noteq> []" using that ch by simp
    from heavy_of_first_max [OF this, of u] obtain i where i: "i < length cs"
      "heavy_of (Node u cs) = rlabel (cs ! i)" "\<forall>j<length cs. rsize (cs ! j) \<le> rsize (cs ! i)"
      "\<forall>j<i. rsize (cs ! j) < rsize (cs ! i)" by blast
    have sz: "subtree_size s ! nat (children s u ! j) = rsize (cs ! j)" if "j < length cs" for j
      using szk [of "cs ! j"] that by (simp add: ch)
    have "i < length (children s u) \<and> heavy_child s ! nat u = children s u ! i \<and>
           (\<forall>j<length (children s u).
              subtree_size s ! nat (children s u ! j) \<le> subtree_size s ! nat (children s u ! i)) \<and>
           (\<forall>j<i. subtree_size s ! nat (children s u ! j) < subtree_size s ! nat (children s u ! i))"
      using i sz N(4) by (simp add: ch)
    then show ?thesis by blast
  qed
  show ?thesis using c1 c2 c3 c4 c5 c6 by blast
qed

theorem pass1_arrays_witness:
  "built 7 [2, 10, 5, 3, 8, 1, 7] [(1, 0), (1, 2), (1, 3), (0, 4), (3, 5), (5, 6)] 1 7 [] example_hld
   \<and> children example_hld 3 = [5] \<and> parent example_hld ! nat 3 = 1
   \<and> depth example_hld ! nat 3 = depth example_hld ! nat 1 + 1
   \<and> subtree_size example_hld ! nat 3 = 1 + subtree_size example_hld ! nat 5
   \<and> heavy_child example_hld ! nat 3 = 5"
proof -
  have c: "children example_hld 3 = [5]" "parent example_hld ! nat 3 = 1" by code_simp+
  from pass1_arrays [OF example_built, of 3] c show ?thesis using example_built by simp
qed


text \<open>
  C8: on a built tree (also after updates), \<open>query_path(u, u)\<close> returns the current
  value of \<open>u\<close>.
\<close>

theorem query_path_singleton:
  assumes "built n vals es root k ups s" and "0 \<le> u" and "u < n"
  shows "query_path s u u = Some (node_values s ! nat u)"
proof -
  note B = built_inv [OF assms(1)]
  have u: "is_node s u" using assms(2,3) B(3) by (simp add: is_node_def)
  have "is_lca s u u u" unfolding is_lca_def using anc_refl anc_node [OF B(1) u] by blast
  from query_path_ok [OF B(1,2) u u this] show ?thesis by (simp add: psum_def)
qed

theorem query_path_singleton_witness:
  "built 7 [2, 10, 5, 3, 8, 1, 7] [(1, 0), (1, 2), (1, 3), (0, 4), (3, 5), (5, 6)] 1 7 [] example_hld
   \<and> query_path example_hld 6 6 = Some 7"
proof -
  have "node_values example_hld ! nat 6 = 7" by code_simp
  then show ?thesis using query_path_singleton [OF example_built, of 6] example_built by simp
qed

text \<open>
  C7: on a built tree, \<open>query_path\<close> and \<open>get_lca\<close> are symmetric in their two
  arguments (and both return).
\<close>

theorem query_and_lca_symmetric:
  assumes "built n vals es root k ups s" and "0 \<le> u" and "u < n" and "0 \<le> v" and "v < n"
  shows "query_path s u v = query_path s v u \<and> get_lca s u v = get_lca s v u \<and>
         query_path s u v \<noteq> None \<and> get_lca s u v \<noteq> None"
proof -
  note B = built_inv [OF assms(1)]
  have u: "is_node s u" and v: "is_node s v" using assms(2-5) B(3) by (simp_all add: is_node_def)
  from get_lca_ok [OF B(1) u v] obtain w where w: "get_lca s u v = Some w" "is_lca s w u v" by blast
  from get_lca_ok [OF B(1) v u] obtain w' where w': "get_lca s v u = Some w'" "is_lca s w' v u" by blast
  have "w = w'" using is_lca_unique [OF B(1) u w(2)] w'(2) is_lca_commute by blast
  moreover have "query_path s u v = Some (psum s u v w)" using query_path_ok [OF B(1,2) u v w(2)] .
  moreover have "query_path s v u = Some (psum s v u w)"
    using query_path_ok [OF B(1,2) v u] w(2) is_lca_commute by blast
  ultimately show ?thesis using w w' psum_commute by simp
qed

theorem query_and_lca_symmetric_witness:
  "built 7 [2, 10, 5, 3, 8, 1, 7] [(1, 0), (1, 2), (1, 3), (0, 4), (3, 5), (5, 6)] 1 7 [] example_hld
   \<and> query_path example_hld 4 6 = Some 31 \<and> query_path example_hld 6 4 = Some 31
   \<and> get_lca example_hld 4 6 = Some 1 \<and> get_lca example_hld 6 4 = Some 1"
proof -
  have "query_path example_hld 4 6 = Some 31" "get_lca example_hld 4 6 = Some 1" by code_simp+
  then show ?thesis using query_and_lca_symmetric [OF example_built, of 4 6] example_built by simp
qed

text \<open>
  C6: with \<open>w = get_lca(u, v)\<close>, the two queries to \<open>w\<close> add up to the query between
  \<open>u\<close> and \<open>v\<close> once the value of \<open>w\<close>, counted twice, is taken off (in 32-bit
  arithmetic).
\<close>

theorem query_path_additive:
  assumes "built n vals es root k ups s" and "0 \<le> u" and "u < n" and "0 \<le> v" and "v < n"
  shows "\<exists>w qu qv q. get_lca s u v = Some w \<and> query_path s u w = Some qu \<and>
           query_path s v w = Some qv \<and> query_path s u v = Some q \<and>
           qu + qv - node_values s ! nat w = q"
proof -
  note B = built_inv [OF assms(1)]
  have u: "is_node s u" and v: "is_node s v" using assms(2-5) B(3) by (simp_all add: is_node_def)
  from get_lca_ok [OF B(1) u v] obtain w where w: "get_lca s u v = Some w" "is_lca s w u v" by blast
  have aw: "anc s w u" "anc s w v" using w(2) by (simp_all add: is_lca_def)
  have wn: "is_node s w" using anc_node [OF B(1) u aw(1)] by simp
  have lu: "is_lca s w u w" unfolding is_lca_def using aw(1) anc_refl anc_node [OF B(1) wn] by blast
  have lv: "is_lca s w v w" unfolding is_lca_def using aw(2) anc_refl anc_node [OF B(1) wn] by blast
  have q1: "query_path s u w = Some (psum s u w w)" using query_path_ok [OF B(1,2) u wn lu] .
  have q2: "query_path s v w = Some (psum s v w w)" using query_path_ok [OF B(1,2) v wn lv] .
  have q3: "query_path s u v = Some (psum s u v w)" using query_path_ok [OF B(1,2) u v w(2)] .
  have "psum s u w w + psum s v w w - node_values s ! nat w = psum s u v w"
    by (simp add: psum_def)
  then show ?thesis using w(1) q1 q2 q3 by blast
qed

theorem query_path_additive_witness:
  "built 7 [2, 10, 5, 3, 8, 1, 7] [(1, 0), (1, 2), (1, 3), (0, 4), (3, 5), (5, 6)] 1 7 [] example_hld
   \<and> (\<exists>w qu qv q. get_lca example_hld 4 6 = Some w \<and> query_path example_hld 4 w = Some qu \<and>
           query_path example_hld 6 w = Some qv \<and> query_path example_hld 4 6 = Some q \<and>
           qu + qv - node_values example_hld ! nat w = q)
   \<and> get_lca example_hld 4 6 = Some 1 \<and> query_path example_hld 4 1 = Some 20
   \<and> query_path example_hld 6 1 = Some 21 \<and> query_path example_hld 4 6 = Some 31"
proof -
  have "get_lca example_hld 4 6 = Some 1" "query_path example_hld 4 1 = Some 20"
    "query_path example_hld 6 1 = Some 21" "query_path example_hld 4 6 = Some 31" by code_simp+
  then show ?thesis using query_path_additive [OF example_built, of 4 6] example_built by simp
qed

end
